theory Spec2Isabelle
  imports Main "HOL-Library.Sublist" "HOL-Library.AList"
begin

section \<open>Result categories (downloader2\_2.cpp, enum class SkinResult)\<close>

datatype SkinResult =
  Success | Skipped | Timeout | RateLimit | LockFailed | ValidationFailed | Error | Unknown

section \<open>Strings and numbers\<close>

text \<open>
  \<^verbatim>\<open>std::string\<close> is a list of bytes. \<open>contains w s\<close> is
  \<^verbatim>\<open>s.find(w) != std::string::npos\<close>, \<open>is_digit\<close> is \<^verbatim>\<open>::isdigit\<close> on ASCII, and
  \<open>to_string\<close> is \<^verbatim>\<open>std::to_string\<close> on an integer.
\<close>

definition dquote :: char where
  "dquote = CHR 0x22"

definition is_digit :: "char \<Rightarrow> bool" where
  "is_digit c = (c \<in> set ''0123456789'')"

definition to_lower :: "char \<Rightarrow> char" where
  "to_lower c =
     (case map_of (zip ''ABCDEFGHIJKLMNOPQRSTUVWXYZ'' ''abcdefghijklmnopqrstuvwxyz'') c of
        Some l \<Rightarrow> l
      | None \<Rightarrow> c)"

fun contains :: "string \<Rightarrow> string \<Rightarrow> bool" where
  "contains w [] = (w = [])"
| "contains w (x # xs) = (prefix w (x # xs) \<or> contains w xs)"

definition digit_char :: "nat \<Rightarrow> char" where
  "digit_char n = ''0123456789'' ! (n mod 10)"

fun digits_of :: "nat \<Rightarrow> string" where
  "digits_of n = (if n < 10 then [digit_char n] else digits_of (n div 10) @ [digit_char n])"

declare digits_of.simps [simp del]

definition to_string :: "int \<Rightarrow> string" where
  "to_string i = (if i < 0 then CHR ''-'' # digits_of (nat (- i)) else digits_of (nat i))"

text \<open>
  Reading a text stream with \<^verbatim>\<open>std::getline\<close> until it fails: a line ends at a line feed
  or at the end of the stream, and the end of the stream with nothing read produces no line.
\<close>

fun getlines_acc :: "string \<Rightarrow> string \<Rightarrow> string list" where
  "getlines_acc cur [] = (if cur = [] then [] else [cur])"
| "getlines_acc cur (c # cs) =
     (if c = CHR 0x0A then cur # getlines_acc [] cs else getlines_acc (cur @ [c]) cs)"

definition getlines :: "string \<Rightarrow> string list" where
  "getlines text = getlines_acc [] text"

section \<open>Regular expressions (the fragment of \<^verbatim>\<open>std::regex\<close> the program uses)\<close>

text \<open>
  The patterns of the program are sequences of literals, repetitions of one character
  class (\<^verbatim>\<open>\d+\<close>, \<^verbatim>\<open>.+\<close>, \<^verbatim>\<open>.*?\<close>, \<^verbatim>\<open>.?\<close>, \<^verbatim>\<open>[^)]+\<close>, \<^verbatim>\<open>\d{6,12}\<close>),
  capture groups and a top-level alternation. \<open>ms\<close> lists the ways a pattern matches a
  prefix of the input, in the priority order of a backtracking ECMAScript matcher (a
  greedy repetition tries the longest count first, a lazy one the shortest), each with
  its captures and the unread rest. \<open>regex_search\<close> takes the first match at the leftmost
  start position, as \<^verbatim>\<open>std::regex_search\<close> does; the flag \<open>ic\<close> is \<^verbatim>\<open>std::regex::icase\<close>.
\<close>

datatype cclass = Ch char | Digit | AnyChar | NoneOf "char list"

fun cls_ok :: "bool \<Rightarrow> cclass \<Rightarrow> char \<Rightarrow> bool" where
  "cls_ok ic (Ch c) x = (if ic then to_lower c = to_lower x else c = x)"
| "cls_ok ic Digit x = is_digit x"
| "cls_ok ic AnyChar x = (x \<noteq> CHR 0x0A \<and> x \<noteq> CHR 0x0D)"
| "cls_ok ic (NoneOf cs) x = (x \<notin> set cs)"

datatype rx =
  Lit string
| Rep cclass nat "nat option" bool
| Seq rx rx
| Alt rx rx
| Grp rx

fun lit_rest :: "bool \<Rightarrow> string \<Rightarrow> string \<Rightarrow> string option" where
  "lit_rest ic [] s = Some s"
| "lit_rest ic (c # cs) [] = None"
| "lit_rest ic (c # cs) (x # xs) = (if cls_ok ic (Ch c) x then lit_rest ic cs xs else None)"

definition rep_counts :: "bool \<Rightarrow> cclass \<Rightarrow> nat \<Rightarrow> nat option \<Rightarrow> bool \<Rightarrow> string \<Rightarrow> nat list" where
  "rep_counts ic c lo hi greedy s =
     (let run = length (takeWhile (cls_ok ic c) s);
          top = (case hi of None \<Rightarrow> run | Some h \<Rightarrow> min h run);
          counts = [lo..<Suc top]
      in if greedy then rev counts else counts)"

fun ms :: "bool \<Rightarrow> rx \<Rightarrow> string \<Rightarrow> (string list \<times> string) list" where
  "ms ic (Lit w) s = (case lit_rest ic w s of None \<Rightarrow> [] | Some r \<Rightarrow> [([], r)])"
| "ms ic (Rep c lo hi greedy) s = map (\<lambda>k. ([], drop k s)) (rep_counts ic c lo hi greedy s)"
| "ms ic (Seq a b) s =
     concat (map (\<lambda>(c1, r1). map (\<lambda>(c2, r2). (c1 @ c2, r2)) (ms ic b r1)) (ms ic a s))"
| "ms ic (Alt a b) s = ms ic a s @ ms ic b s"
| "ms ic (Grp a) s = map (\<lambda>(c, r). (c @ [take (length s - length r) s], r)) (ms ic a s)"

fun regex_search :: "bool \<Rightarrow> rx \<Rightarrow> string \<Rightarrow> (string list \<times> string) option" where
  "regex_search ic r [] = (case ms ic r [] of [] \<Rightarrow> None | m # _ \<Rightarrow> Some m)"
| "regex_search ic r (x # xs) =
     (case ms ic r (x # xs) of [] \<Rightarrow> regex_search ic r xs | m # _ \<Rightarrow> Some m)"

definition cat :: "rx list \<Rightarrow> rx" where
  "cat rs = foldr Seq rs (Lit [])"

text \<open>\<open>grp m k\<close> is \<^verbatim>\<open>m[k].str()\<close>: the text of the \<open>k\<close>-th capture group, empty when
  there is none.\<close>

definition grp :: "string list \<Rightarrow> nat \<Rightarrow> string" where
  "grp m k = (if 1 \<le> k \<and> k \<le> length m then m ! (k - 1) else [])"

section \<open>Input parser (downloader2\_2.cpp, parseIds)\<close>

text \<open>The pattern \<^verbatim>\<open>"(\d{6,12})"\<close>.\<close>

definition idRe :: rx where
  "idRe = cat [Lit [dquote], Grp (Rep Digit 6 (Some 12) True), Lit [dquote]]"

text \<open>
  The inner loop of \<^verbatim>\<open>parseIds\<close> on one line: while the pattern is found in \<open>s\<close>,
  push the captured digits and continue in the suffix after the match. Every match
  consumes its opening quote, so the suffix is shorter and the loop ends.
\<close>

lemma lit_rest_length: "lit_rest ic w s = Some r \<Longrightarrow> length r + length w = length s"
  by (induction ic w s rule: lit_rest.induct) (auto split: if_splits)

lemma ms_length: "(c, r) \<in> set (ms ic p s) \<Longrightarrow> length r \<le> length s"
proof (induction p arbitrary: c r s)
  case (Lit w)
  then have "lit_rest ic w s = Some r"
    by (cases "lit_rest ic w s") auto
  then show ?case using lit_rest_length [of ic w s r] by simp
next
  case (Seq a b)
  from Seq.prems obtain c1 r1 c2 where a: "(c1, r1) \<in> set (ms ic a s)"
    and b: "(c2, r) \<in> set (ms ic b r1)"
    by auto
  from Seq.IH(1) [OF a] Seq.IH(2) [OF b] show ?case by simp
qed auto

lemma ms_lit_seq_shorter:
  assumes "(c, r) \<in> set (ms ic (Seq (Lit (x # w)) p) s)"
  shows "length r < length s"
proof -
  from assms obtain c1 r1 c2 where a: "(c1, r1) \<in> set (ms ic (Lit (x # w)) s)"
    and b: "(c2, r) \<in> set (ms ic p r1)"
    by auto
  from a have "lit_rest ic (x # w) s = Some r1"
    by (cases "lit_rest ic (x # w) s") auto
  then have "length r1 < length s"
    using lit_rest_length [of ic "x # w" s r1] by simp
  with ms_length [OF b] show ?thesis by simp
qed

lemma ms_idRe_shorter: "(c, r) \<in> set (ms False idRe s) \<Longrightarrow> length r < length s"
  unfolding idRe_def cat_def foldr.simps o_apply by (rule ms_lit_seq_shorter)

lemma regex_search_in_ms:
  "regex_search ic p s = Some m \<Longrightarrow> \<exists>t. m \<in> set (ms ic p t) \<and> length t \<le> length s"
proof (induction s)
  case Nil
  then show ?case by (auto split: list.splits)
next
  case (Cons x xs)
  show ?case
  proof (cases "ms ic p (x # xs)")
    case Nil
    with Cons.prems have "regex_search ic p xs = Some m" by simp
    from Cons.IH [OF this] show ?thesis by auto
  next
    case (Cons m' rest)
    with Cons.prems have "m \<in> set (ms ic p (x # xs))" by simp
    then show ?thesis by blast
  qed
qed

lemma regex_search_idRe_shorter:
  "regex_search False idRe s = Some (c, r) \<Longrightarrow> length r < length s"
  by (fastforce dest: regex_search_in_ms ms_idRe_shorter)

function line_ids :: "string \<Rightarrow> string list" where
  "line_ids s =
     (case regex_search False idRe s of
        None \<Rightarrow> []
      | Some (m, rest) \<Rightarrow> grp m 1 # line_ids rest)"
  by pat_completeness auto
termination
  by (relation "measure length") (auto dest: regex_search_idRe_shorter)

declare line_ids.simps [simp del]

text \<open>
  The deduplication \<^verbatim>\<open>remove_if(..., !seen.insert(id).second)\<close>: an identifier is kept
  the first time it is met and removed afterwards.
\<close>

fun dedup :: "string set \<Rightarrow> string list \<Rightarrow> string list" where
  "dedup seen [] = []"
| "dedup seen (x # xs) = (if x \<in> seen then dedup seen xs else x # dedup (insert x seen) xs)"

definition parseIds :: "string \<Rightarrow> string list" where
  "parseIds text = dedup {} (concat (map line_ids (getlines text)))"

text \<open>
  Two direct scanners of a line, to compare \<^verbatim>\<open>parseIds\<close> with. \<open>scan_quoted\<close> reads
  left to right and, after a quoted run of 6 to 12 digits, continues behind the closing
  quote (the matches do not overlap). \<open>spec_quoted_runs\<close> follows the words of the
  specification: every run of 6 to 12 digits that stands between two double quotes,
  whether or not its opening quote closed the run before it.
\<close>

fun scan_quoted :: "string \<Rightarrow> string list" where
  "scan_quoted [] = []"
| "scan_quoted (c # cs) =
     (let run = takeWhile is_digit cs in
      if c = dquote \<and> 6 \<le> length run \<and> length run \<le> 12
         \<and> take 1 (drop (length run) cs) = [dquote]
      then run # scan_quoted (drop (Suc (length run)) cs)
      else scan_quoted cs)"

fun spec_quoted_runs :: "string \<Rightarrow> string list" where
  "spec_quoted_runs [] = []"
| "spec_quoted_runs (c # cs) =
     (let run = takeWhile is_digit cs in
      if c = dquote \<and> 6 \<le> length run \<and> length run \<le> 12
         \<and> take 1 (drop (length run) cs) = [dquote]
      then run # spec_quoted_runs cs
      else spec_quoted_runs cs)"

text \<open>Sample inputs: the line \<^verbatim>\<open>"490217825": "example"\<close>, and two runs that share a
  quote, \<^verbatim>\<open>"123456"789012"\<close>.\<close>

definition sample_input :: string where
  "sample_input = dquote # ''490217825'' @ dquote # '': '' @ dquote # ''example'' @ [dquote]"

definition adjacent_input :: string where
  "adjacent_input = dquote # ''123456'' @ dquote # ''789012'' @ [dquote]"

section \<open>Log classifier (downloader2\_2.cpp, parseSteamCmdLog)\<close>

record ParsedLog =
  perItem :: "string \<rightharpoonup> SkinResult"
  globalRateLimit :: bool
  globalTimeout :: bool
  globalLockFailed :: bool
  globalValidationFail :: bool
  log_successCount :: int
  log_failureCount :: int

text \<open>The seven patterns, in the order of their declarations in the source:
  \<^verbatim>\<open>\[AppID \d+\] Download item (\d+) result : (.+)\<close>,
  \<^verbatim>\<open>Success\. Downloaded item (\d+)\<close>,
  \<^verbatim>\<open>ERROR! Download item (\d+) failed \(([^)]+)\)\<close>,
  \<^verbatim>\<open>Timeout downloading item (\d+)\<close>,
  \<^verbatim>\<open>Staged file validation failed.*?item (\d+)\<close> (icase),
  \<^verbatim>\<open>Failed to write patch state file \(File locked\)\<close> (icase) and
  \<^verbatim>\<open>rate.?limit|too many requests|throttled\<close> (icase).\<close>

definition reResult :: rx where
  "reResult = cat [Lit ''[AppID '', Rep Digit 1 None True, Lit ''] Download item '',
                   Grp (Rep Digit 1 None True), Lit '' result : '',
                   Grp (Rep AnyChar 1 None True)]"

definition reSuccess :: rx where
  "reSuccess = cat [Lit ''Success. Downloaded item '', Grp (Rep Digit 1 None True)]"

definition reError :: rx where
  "reError = cat [Lit ''ERROR! Download item '', Grp (Rep Digit 1 None True),
                  Lit '' failed ('', Grp (Rep (NoneOf '')'') 1 None True), Lit '')'']"

definition reTimeout :: rx where
  "reTimeout = cat [Lit ''Timeout downloading item '', Grp (Rep Digit 1 None True)]"

definition reValidation :: rx where
  "reValidation = cat [Lit ''Staged file validation failed'', Rep AnyChar 0 None False,
                       Lit ''item '', Grp (Rep Digit 1 None True)]"

definition rePatchLock :: rx where
  "rePatchLock = Lit ''Failed to write patch state file (File locked)''"

definition reRateLimit :: rx where
  "reRateLimit = Alt (cat [Lit ''rate'', Rep AnyChar 0 (Some 1) True, Lit ''limit''])
                  (Alt (Lit ''too many requests'') (Lit ''throttled''))"

text \<open>\<^verbatim>\<open>if (result.perItem.count(id)) result.perItem[id] = sr;\<close>\<close>

definition set_item :: "ParsedLog \<Rightarrow> string \<Rightarrow> SkinResult \<Rightarrow> ParsedLog" where
  "set_item r ident sr =
     (if perItem r ident \<noteq> None then r\<lparr>perItem := (perItem r)(ident \<mapsto> sr)\<rparr> else r)"

text \<open>The context rule of the lines that carry no identifier: the last identifier seen is
  upgraded when it is an entry of the map that still reads \<open>Error\<close> or \<open>Unknown\<close>.\<close>

definition upgrade_last :: "ParsedLog \<Rightarrow> string \<Rightarrow> SkinResult \<Rightarrow> ParsedLog" where
  "upgrade_last r lastId sr =
     (if lastId \<noteq> [] \<and> perItem r lastId \<noteq> None
         \<and> (perItem r lastId = Some Error \<or> perItem r lastId = Some Unknown)
      then r\<lparr>perItem := (perItem r)(lastId \<mapsto> sr)\<rparr>
      else r)"

text \<open>The branch of a \<^verbatim>\<open>result :\<close> line, with the captured identifier and reason.\<close>

definition on_result :: "ParsedLog \<Rightarrow> string \<Rightarrow> string \<Rightarrow> ParsedLog" where
  "on_result r ident reason =
     (if reason = ''OK'' \<or> contains ''Success'' reason then
        set_item (r\<lparr>log_successCount := log_successCount r + 1\<rparr>) ident Success
      else if contains ''Locking Failed'' reason \<or> contains ''locked'' reason then
        set_item (r\<lparr>globalLockFailed := True, log_failureCount := log_failureCount r + 1\<rparr>)
          ident LockFailed
      else if contains ''Timeout'' reason then
        set_item (r\<lparr>globalTimeout := True, log_failureCount := log_failureCount r + 1\<rparr>)
          ident Timeout
      else if contains ''rate'' reason \<or> contains ''Rate'' reason then
        set_item (r\<lparr>globalRateLimit := True, log_failureCount := log_failureCount r + 1\<rparr>)
          ident RateLimit
      else
        set_item (r\<lparr>log_failureCount := log_failureCount r + 1\<rparr>) ident Error)"

text \<open>The branch of an \<^verbatim>\<open>ERROR!\<close> console line.\<close>

definition on_error :: "ParsedLog \<Rightarrow> string \<Rightarrow> string \<Rightarrow> ParsedLog" where
  "on_error r ident reason =
     (let r1 = (if contains ''Timeout'' reason then
                  set_item (r\<lparr>globalTimeout := True\<rparr>) ident Timeout
                else if contains ''rate'' reason \<or> contains ''Rate'' reason then
                  set_item (r\<lparr>globalRateLimit := True\<rparr>) ident RateLimit
                else set_item r ident Error)
      in r1\<lparr>log_failureCount := log_failureCount r1 + 1\<rparr>)"

text \<open>
  One iteration of the \<^verbatim>\<open>while (std::getline(file, line))\<close> loop: the state is the
  result under construction and \<open>lastId\<close>. The branches are tried in the order of the
  source, each ending in \<^verbatim>\<open>continue\<close>.
\<close>

definition parse_line :: "ParsedLog \<times> string \<Rightarrow> string \<Rightarrow> ParsedLog \<times> string" where
  "parse_line st line =
     (let r = fst st; lastId = snd st in
      case regex_search False reResult line of
        Some (m, _) \<Rightarrow> (on_result r (grp m 1) (grp m 2), grp m 1)
      | None \<Rightarrow>
      (case regex_search True reValidation line of
        Some (m, _) \<Rightarrow>
          ((set_item r (grp m 1) ValidationFailed)\<lparr>globalValidationFail := True\<rparr>, lastId)
      | None \<Rightarrow>
      if contains ''Staged file validation failed'' line
         \<or> contains ''Missing update files'' line then
        (upgrade_last (r\<lparr>globalValidationFail := True\<rparr>) lastId ValidationFailed, lastId)
      else if regex_search True rePatchLock line \<noteq> None then
        (upgrade_last (r\<lparr>globalLockFailed := True\<rparr>) lastId LockFailed, lastId)
      else
      (case regex_search False reSuccess line of
        Some (m, _) \<Rightarrow>
          (if perItem r (grp m 1) \<noteq> None
           then r\<lparr>perItem := (perItem r)(grp m 1 \<mapsto> Success),
                   log_successCount := log_successCount r + 1\<rparr>
           else r, grp m 1)
      | None \<Rightarrow>
      (case regex_search False reError line of
        Some (m, _) \<Rightarrow> (on_error r (grp m 1) (grp m 2), grp m 1)
      | None \<Rightarrow>
      (case regex_search False reTimeout line of
        Some (m, _) \<Rightarrow>
          ((set_item r (grp m 1) Timeout)
             \<lparr>globalTimeout := True, log_failureCount := log_failureCount r + 1\<rparr>, grp m 1)
      | None \<Rightarrow>
      if regex_search True reRateLimit line \<noteq> None
      then (r\<lparr>globalRateLimit := True\<rparr>, lastId)
      else (r, lastId))))))"

definition empty_log :: ParsedLog where
  "empty_log = \<lparr>perItem = Map.empty, globalRateLimit = False, globalTimeout = False,
                 globalLockFailed = False, globalValidationFail = False,
                 log_successCount = 0, log_failureCount = 0\<rparr>"

text \<open>\<^verbatim>\<open>for (const auto& id : chunk) result.perItem[id] = SkinResult::Unknown;\<close>\<close>

definition init_items :: "string list \<Rightarrow> string \<rightharpoonup> SkinResult" where
  "init_items chunk = foldl (\<lambda>m ident. m(ident \<mapsto> Unknown)) Map.empty chunk"

text \<open>
  The log is the text the stream delivers, or \<open>None\<close> when the file cannot be opened;
  then the empty result is returned before the map is initialised.
\<close>

definition parseSteamCmdLog :: "string option \<Rightarrow> string list \<Rightarrow> ParsedLog" where
  "parseSteamCmdLog log chunk =
     (case log of
        None \<Rightarrow> empty_log
      | Some text \<Rightarrow>
          fst (foldl parse_line (empty_log\<lparr>perItem := init_items chunk\<rparr>, []) (getlines text)))"

text \<open>The two-line log of the third unit scenario of the specification.\<close>

definition scenario3_line1 :: string where
  "scenario3_line1 = ''[AppID 252490] Download item 999 result : Failure''"

definition scenario3_line2 :: string where
  "scenario3_line2 = ''Staged file validation failed (13 missing files)''"

definition scenario3_log :: string where
  "scenario3_log = scenario3_line1 @ [CHR 0x0A] @ scenario3_line2"

section \<open>Partitioner (downloader2\_2.cpp, partition and runPass)\<close>

text \<open>
  \<^verbatim>\<open>partition(ids, n)\<close> fills \<open>n\<close> chunks in index order. Chunk \<open>i\<close> receives
  \<open>sz = base + (i < rem ? 1 : 0)\<close> elements, read from the running position \<open>idx\<close>;
  the inner loop also stops when \<open>idx\<close> reaches the end of \<open>ids\<close>, which is what
  \<open>take\<close> on the remaining elements does. The C++ \<open>int\<close> values are modelled as
  \<open>int\<close>; \<open>n \<le> 0\<close> (a division by zero or an impossible vector size in the source)
  is the value \<open>None\<close>.
\<close>

fun chunks_from :: "'a list \<Rightarrow> int \<Rightarrow> int \<Rightarrow> nat list \<Rightarrow> nat \<Rightarrow> 'a list list" where
  "chunks_from ids base rem [] idx = []"
| "chunks_from ids base rem (i # is) idx =
     (let sz = base + (if int i < rem then 1 else 0);
          c = take (nat sz) (drop idx ids)
      in c # chunks_from ids base rem is (idx + length c))"

definition partition :: "'a list \<Rightarrow> int \<Rightarrow> 'a list list option" where
  "partition ids n =
     (if n \<le> 0 then None
      else Some (chunks_from ids (int (length ids) div n) (int (length ids) mod n)
                   [0..<nat n] 0))"

text \<open>The chunking step of \<^verbatim>\<open>runPass\<close>: nothing is done for an empty working set,
  otherwise \<open>n = std::min(instances, (int)toDownload.size())\<close>.\<close>

definition runPass_chunks :: "'a list \<Rightarrow> int \<Rightarrow> 'a list list option" where
  "runPass_chunks toDownload instances =
     (if toDownload = [] then Some []
      else partition toDownload (min instances (int (length toDownload))))"

section \<open>The file system (the part of \<^verbatim>\<open>std::filesystem\<close> the program uses)\<close>

text \<open>
  A file system is a tree: a regular file with its size in bytes, or a directory with its
  entries. A path is the list of its components, as \<^verbatim>\<open>fs::path\<close> iterates them; the
  first component of an absolute path is the root directory \<^verbatim>\<open>/\<close>. The top node holds the
  entries of the working directory and the root directory side by side, so relative and
  absolute paths index the same tree.

  \<open>path_join\<close> is \<^verbatim>\<open>operator/\<close>: a right operand that starts at the root directory
  replaces the left operand.
\<close>

datatype node = File nat | Dir "(string \<times> node) list"

type_synonym path = "string list"

definition path_join :: "path \<Rightarrow> path \<Rightarrow> path" where
  "path_join p q = (if q \<noteq> [] \<and> hd q = ''/'' then q else p @ q)"

fun lookup :: "node \<Rightarrow> path \<Rightarrow> node option" where
  "lookup n [] = Some n"
| "lookup (File s) (x # xs) = None"
| "lookup (Dir cs) (x # xs) = (case map_of cs x of None \<Rightarrow> None | Some c \<Rightarrow> lookup c xs)"

text \<open>\<open>update_at p v t\<close> sets (\<open>Some\<close>) or removes (\<open>None\<close>) the entry at \<open>p\<close>, when the
  directory that holds it exists.\<close>

fun update_at :: "path \<Rightarrow> node option \<Rightarrow> node \<Rightarrow> node" where
  "update_at [] v t = t"
| "update_at (x # xs) v (File s) = File s"
| "update_at [x] v (Dir cs) =
     Dir (case v of None \<Rightarrow> AList.delete x cs | Some c \<Rightarrow> AList.update x c cs)"
| "update_at (x # y # ys) v (Dir cs) =
     (case map_of cs x of
        None \<Rightarrow> Dir cs
      | Some c \<Rightarrow> Dir (AList.update x (update_at (y # ys) v c) cs))"

definition is_dir :: "node \<Rightarrow> path \<Rightarrow> bool" where
  "is_dir t p = (case lookup t p of Some (Dir _) \<Rightarrow> True | _ \<Rightarrow> False)"

text \<open>
  What the operating system does beyond the tree is an input of the model: which
  directories cannot be listed, which operations throw for a reason the tree does not
  show (another device, permissions), and how many objects a recursive copy writes
  before it throws.
\<close>

record faults =
  unreadable :: "path \<Rightarrow> bool"
  mkdir_fails :: "path \<Rightarrow> bool"
  rename_fails :: "path \<Rightarrow> path \<Rightarrow> bool"
  copy_limit :: "path \<Rightarrow> path \<Rightarrow> nat option"
  remove_fails :: "path \<Rightarrow> bool"
  open_fails :: "path \<Rightarrow> bool"

text \<open>\<^verbatim>\<open>folderHasFiles\<close>: the path is a directory and one of its direct entries is a
  regular file of non-zero size; every exception gives \<open>False\<close>.\<close>

definition nonempty_file :: "string \<times> node \<Rightarrow> bool" where
  "nonempty_file e = (case snd e of File sz \<Rightarrow> 0 < sz | Dir _ \<Rightarrow> False)"

definition folderHasFiles :: "faults \<Rightarrow> node \<Rightarrow> path \<Rightarrow> bool" where
  "folderHasFiles env t p =
     (case lookup t p of
        Some (Dir cs) \<Rightarrow> \<not> unreadable env p \<and> list_ex nonempty_file cs
      | _ \<Rightarrow> False)"

text \<open>\<^verbatim>\<open>fs::create_directories\<close>: every missing directory along the path is created; a
  regular file on the way is an error (\<open>None\<close>).\<close>

fun mkdirs :: "path \<Rightarrow> node \<Rightarrow> node option" where
  "mkdirs [] t = (case t of Dir _ \<Rightarrow> Some t | File _ \<Rightarrow> None)"
| "mkdirs (x # xs) (File s) = None"
| "mkdirs (x # xs) (Dir cs) =
     (case mkdirs xs (case map_of cs x of None \<Rightarrow> Dir [] | Some c \<Rightarrow> c) of
        None \<Rightarrow> None
      | Some c' \<Rightarrow> Some (Dir (AList.update x c' cs)))"

definition create_directories :: "faults \<Rightarrow> path \<Rightarrow> node \<Rightarrow> node option" where
  "create_directories env p t = (if mkdir_fails env p then None else mkdirs p t)"

text \<open>
  \<^verbatim>\<open>fs::rename\<close>: the source must exist, the directory of the target must exist, and an
  existing target is replaced only when it is an empty directory (for a directory) or a
  regular file (for a regular file). On success the source is gone and the target is the
  former source.
\<close>

definition rename :: "faults \<Rightarrow> path \<Rightarrow> path \<Rightarrow> node \<Rightarrow> node option" where
  "rename env src dst t =
     (if rename_fails env src dst \<or> src = [] \<or> dst = [] then None
      else case lookup t src of
        None \<Rightarrow> None
      | Some n \<Rightarrow>
          if src = dst then Some t
          else if prefix src dst \<or> \<not> is_dir t (butlast dst) then None
          else (case (lookup t dst, n) of
                  (None, _) \<Rightarrow> Some (update_at dst (Some n) (update_at src None t))
                | (Some (Dir []), Dir _) \<Rightarrow> Some (update_at dst (Some n) (update_at src None t))
                | (Some (File _), File _) \<Rightarrow> Some (update_at dst (Some n) (update_at src None t))
                | _ \<Rightarrow> None))"

text \<open>
  \<^verbatim>\<open>fs::copy\<close> with \<^verbatim>\<open>recursive | overwrite_existing\<close>: the objects of the source are
  written below the target in the order of the traversal, a directory before its
  entries. A missing directory is created, an existing regular file is overwritten, a
  regular file meets an existing directory by being copied into it under its own name.
  The result is the tree reached and whether the copy completed; it stops where an
  object cannot be written or the limit of the environment is reached.
\<close>

fun flatten :: "path \<Rightarrow> node \<Rightarrow> (path \<times> nat option) list" where
  "flatten p (File s) = [(p, Some s)]"
| "flatten p (Dir cs) = (p, None) # concat (map (\<lambda>(n, c). flatten (p @ [n]) c) cs)"

definition write_file :: "node \<Rightarrow> path \<Rightarrow> nat \<Rightarrow> node option" where
  "write_file t p s =
     (case lookup t p of
        Some (Dir _) \<Rightarrow> None
      | _ \<Rightarrow> if p \<noteq> [] \<and> is_dir t (butlast p) then Some (update_at p (Some (File s)) t)
             else None)"

definition write_obj :: "node \<Rightarrow> path \<times> nat option \<Rightarrow> node option" where
  "write_obj t ob =
     (case ob of
        (p, None) \<Rightarrow>
          (case lookup t p of
             Some (Dir _) \<Rightarrow> Some t
           | Some (File _) \<Rightarrow> None
           | None \<Rightarrow> if p \<noteq> [] \<and> is_dir t (butlast p) then Some (update_at p (Some (Dir [])) t)
                     else None)
      | (p, Some s) \<Rightarrow>
          (case lookup t p of
             Some (Dir _) \<Rightarrow> if p = [] then None else write_file t (p @ [last p]) s
           | _ \<Rightarrow> write_file t p s))"

fun copy_objs :: "node \<Rightarrow> (path \<times> nat option) list \<Rightarrow> nat option \<Rightarrow> node \<times> bool" where
  "copy_objs t [] lim = (t, True)"
| "copy_objs t (ob # obs) lim =
     (if lim = Some 0 then (t, False)
      else case write_obj t ob of
        None \<Rightarrow> (t, False)
      | Some t' \<Rightarrow> copy_objs t' obs (map_option (\<lambda>k. k - 1) lim))"

definition copy :: "faults \<Rightarrow> path \<Rightarrow> path \<Rightarrow> node \<Rightarrow> node \<times> bool" where
  "copy env src dst t =
     (case lookup t src of
        None \<Rightarrow> (t, False)
      | Some n \<Rightarrow> copy_objs t (map (\<lambda>(rel, k). (dst @ rel, k)) (flatten [] n))
                   (copy_limit env src dst))"

text \<open>\<^verbatim>\<open>fs::remove_all\<close> removes the whole subtree, \<^verbatim>\<open>fs::remove\<close> a regular file or an
  empty directory; a throwing call is \<open>None\<close> and leaves the tree as it was.\<close>

definition remove_all :: "faults \<Rightarrow> path \<Rightarrow> node \<Rightarrow> node option" where
  "remove_all env p t = (if remove_fails env p then None else Some (update_at p None t))"

definition remove :: "faults \<Rightarrow> path \<Rightarrow> node \<Rightarrow> node option" where
  "remove env p t =
     (if remove_fails env p then None
      else case lookup t p of
        Some (Dir (e # es)) \<Rightarrow> None
      | _ \<Rightarrow> Some (update_at p None t))"

text \<open>The number of regular files at any depth below a node.\<close>

fun count_files :: "node \<Rightarrow> nat" where
  "count_files (File s) = 1"
| "count_files (Dir cs) = sum_list (map (\<lambda>(n, c). count_files c) cs)"

definition regular_files_under :: "node \<Rightarrow> path \<Rightarrow> nat" where
  "regular_files_under t p = (case lookup t p of None \<Rightarrow> 0 | Some n \<Rightarrow> count_files n)"

section \<open>Configuration and file system helpers (downloader2\_2.cpp)\<close>

definition APP_ID :: string where
  "APP_ID = ''252490''"

definition SHARED_DIR :: path where
  "SHARED_DIR = [''rust_workshop'']"

definition CONTENT_PATH :: path where
  "CONTENT_PATH = SHARED_DIR @ [''steamapps'', ''workshop'', ''content'', APP_ID]"

definition INSTANCES_ROOT :: string where
  "INSTANCES_ROOT = ''instances''"

text \<open>\<^verbatim>\<open>INST_DIR_PREFIX + std::to_string(threadId)\<close>, as a path.\<close>

definition inst_dir :: "int \<Rightarrow> path" where
  "inst_dir threadId = [INSTANCES_ROOT, ''rust_workshop_t'' @ to_string threadId]"

definition LOG_DIR :: path where
  "LOG_DIR = [''logs'']"

definition TEMP_DIR :: path where
  "TEMP_DIR = [''temp_scripts'']"

definition BASE_TIMEOUT_SEC :: int where
  "BASE_TIMEOUT_SEC = 90"

definition MAX_RETRY_PASSES :: int where
  "MAX_RETRY_PASSES = 3"

definition RATELIMIT_BACKOFF_SEC :: int where
  "RATELIMIT_BACKOFF_SEC = 30"

text \<open>
  \<^verbatim>\<open>cleanStagingFolder\<close>. The three sub-paths are written with a leading slash in the
  source, so \<^verbatim>\<open>fs::path(instanceDir) / sub\<close> is the path \<open>sub\<close> itself, below the root
  directory. Where the path exists its entries are removed one after the other; an
  exception (the path is not a directory, cannot be listed, or a removal throws) ends
  the loop of that path and is logged.
\<close>

definition stagingSubdirs :: "path list" where
  "stagingSubdirs = [[''/'', ''steamapps'', ''workshop'', ''downloads''],
                     [''/'', ''steamapps'', ''workshop'', ''temp''],
                     [''/'', ''steamapps'', ''downloading'']]"

fun remove_each :: "faults \<Rightarrow> path list \<Rightarrow> node \<Rightarrow> node" where
  "remove_each env [] t = t"
| "remove_each env (q # qs) t =
     (case remove_all env q t of None \<Rightarrow> t | Some t' \<Rightarrow> remove_each env qs t')"

definition clean_dir :: "faults \<Rightarrow> path \<Rightarrow> node \<Rightarrow> node" where
  "clean_dir env p t =
     (case lookup t p of
        Some (Dir cs) \<Rightarrow>
          if unreadable env p then t else remove_each env (map (\<lambda>e. p @ [fst e]) cs) t
      | _ \<Rightarrow> t)"

definition cleanStagingFolder :: "faults \<Rightarrow> path \<Rightarrow> node \<Rightarrow> node" where
  "cleanStagingFolder env instanceDir t =
     foldl (\<lambda>t' sub. clean_dir env (path_join instanceDir sub) t') t stagingSubdirs"

text \<open>
  \<^verbatim>\<open>cleanSharedPatchFiles\<close>: in the shared downloads directory, every entry whose
  extension is \<^verbatim>\<open>.patch\<close> or \<^verbatim>\<open>.lock\<close> is removed with \<^verbatim>\<open>fs::remove\<close>; a removal that
  throws is skipped. \<open>extension\<close> is \<^verbatim>\<open>path::extension\<close> of a file name: the part from the
  last period on, empty when there is none or when the only period is the first
  character.
\<close>

definition extension :: "string \<Rightarrow> string" where
  "extension name =
     (let stem_rev = dropWhile (\<lambda>c. c \<noteq> CHR ''.'') (rev name) in
      if name = ''.'' \<or> name = ''..'' \<or> length stem_rev \<le> 1 then []
      else drop (length stem_rev - 1) name)"

fun remove_patch_files :: "faults \<Rightarrow> path \<Rightarrow> string list \<Rightarrow> node \<Rightarrow> node" where
  "remove_patch_files env d [] t = t"
| "remove_patch_files env d (name # names) t =
     (if extension name = ''.patch'' \<or> extension name = ''.lock''
      then (case remove env (d @ [name]) t of
              None \<Rightarrow> remove_patch_files env d names t
            | Some t' \<Rightarrow> remove_patch_files env d names t')
      else remove_patch_files env d names t)"

definition cleanSharedPatchFiles :: "faults \<Rightarrow> node \<Rightarrow> node" where
  "cleanSharedPatchFiles env t =
     (let downloadsDir = SHARED_DIR @ [''steamapps'', ''workshop'', ''downloads''] in
      case lookup t downloadsDir of
        Some (Dir cs) \<Rightarrow>
          if unreadable env downloadsDir then t
          else remove_patch_files env downloadsDir (map fst cs) t
      | _ \<Rightarrow> t)"

text \<open>
  \<^verbatim>\<open>moveSkinToShared\<close>. The result is the returned flag and the tree afterwards. The
  \<^verbatim>\<open>try\<close> block (create the parent, rename) either completes or throws at a tree; the
  handler then copies recursively and removes the source, and a second exception gives
  \<open>False\<close>.
\<close>

definition skin_src :: "path \<Rightarrow> string \<Rightarrow> path" where
  "skin_src instanceDir skinId =
     instanceDir @ [''steamapps'', ''workshop'', ''content'', APP_ID, skinId]"

definition skin_dst :: "string \<Rightarrow> path" where
  "skin_dst skinId = CONTENT_PATH @ [skinId]"

definition moveSkinToShared :: "faults \<Rightarrow> path \<Rightarrow> string \<Rightarrow> node \<Rightarrow> bool \<times> node" where
  "moveSkinToShared env instanceDir skinId t =
     (let src = skin_src instanceDir skinId; dst = skin_dst skinId in
      if folderHasFiles env t dst then (True, t)
      else if \<not> folderHasFiles env t src then (False, t)
      else
        (case (case create_directories env (butlast dst) t of
                 None \<Rightarrow> Inl t
               | Some t1 \<Rightarrow> (case rename env src dst t1 of None \<Rightarrow> Inl t1 | Some t2 \<Rightarrow> Inr t2)) of
           Inr t2 \<Rightarrow> (folderHasFiles env t2 dst, t2)
         | Inl t1 \<Rightarrow>
             (case copy env src dst t1 of
                (t3, False) \<Rightarrow> (False, t3)
              | (t3, True) \<Rightarrow>
                  (case remove_all env src t3 of
                     None \<Rightarrow> (False, t3)
                   | Some t4 \<Rightarrow> (folderHasFiles env t4 dst, t4)))))"

section \<open>Instance worker (downloader2\_2.cpp, workerInstance)\<close>

text \<open>
  The shared state of the program: the file system, the map \<^verbatim>\<open>skinResults\<close>, the atomic
  counters and the rate-limit flag. \<open>pass_log\<close> records every dispatch of \<^verbatim>\<open>runPass\<close>
  (the line \<^verbatim>\<open>Pass p/4: ... -> n isolated steamcmd instance(s)\<close> of the log) as the pass
  number, the requested number of instances and the number \<open>n\<close> of workers started.
\<close>

record state =
  fs :: node
  skinResults :: "string \<rightharpoonup> SkinResult"
  successCount :: int
  failedCount :: int
  skippedCount :: int
  timeoutCount :: int
  errorCount :: int
  ratelimitCount :: int
  lockFailCount :: int
  validationFailCount :: int
  totalProcessed :: int
  anyRateLimitDetected :: bool
  pass_log :: "(int \<times> int \<times> int) list"

text \<open>
  One run of the external tool is an input of the model: the file system it leaves, the
  text of the captured log (\<open>None\<close> when the log cannot be opened) and whether the
  polling loop of the worker hit the hard timeout of \<open>BASE_TIMEOUT_SEC * chunk.size()\<close>
  seconds. The environment gives the run for every pass, instance and chunk, together
  with the faults of the file system.
\<close>

record tool_run =
  fs_after :: node
  log_text :: "string option"
  timed_out :: bool

record env =
  faults_of :: faults
  steamcmd :: "int \<Rightarrow> int \<Rightarrow> string list \<Rightarrow> node \<Rightarrow> tool_run"

text \<open>The script the worker writes for the tool.\<close>

definition script_text :: "int \<Rightarrow> string list \<Rightarrow> string" where
  "script_text threadId chunk =
     ''login anonymous'' @ [CHR 0x0A]
     @ ''force_install_dir ./'' @ INSTANCES_ROOT @ ''/rust_workshop_t'' @ to_string threadId
     @ [CHR 0x0A]
     @ concat (map (\<lambda>ident. ''workshop_download_item '' @ APP_ID @ '' '' @ ident @ [CHR 0x0A])
                 chunk)
     @ ''quit'' @ [CHR 0x0A]"

text \<open>\<^verbatim>\<open>std::ofstream sc(scriptPath)\<close> opens when the directory exists, the path is not a
  directory and the environment does not refuse.\<close>

definition ofstream_opens :: "faults \<Rightarrow> node \<Rightarrow> path \<Rightarrow> bool" where
  "ofstream_opens f t p =
     (\<not> open_fails f p \<and> p \<noteq> [] \<and> is_dir t (butlast p) \<and> \<not> is_dir t p)"

text \<open>
  The body of the reconcile loop for one identifier: the classified outcome (\<open>Unknown\<close>
  when the log has none), the move to the shared tree, the check of the shared
  directory, the override by the hard timeout, then the \<^verbatim>\<open>switch\<close> that counts the
  outcome (its \<^verbatim>\<open>default\<close> branch counts an error and turns the outcome into \<open>Error\<close>) and
  the store into \<^verbatim>\<open>skinResults\<close>.
\<close>

definition count_outcome :: "state \<Rightarrow> SkinResult \<Rightarrow> state \<times> SkinResult" where
  "count_outcome s sr =
     (case sr of
        Success \<Rightarrow> (s\<lparr>successCount := successCount s + 1\<rparr>, sr)
      | Timeout \<Rightarrow> (s\<lparr>timeoutCount := timeoutCount s + 1, failedCount := failedCount s + 1\<rparr>, sr)
      | RateLimit \<Rightarrow>
          (s\<lparr>ratelimitCount := ratelimitCount s + 1, failedCount := failedCount s + 1\<rparr>, sr)
      | LockFailed \<Rightarrow>
          (s\<lparr>lockFailCount := lockFailCount s + 1, failedCount := failedCount s + 1\<rparr>, sr)
      | ValidationFailed \<Rightarrow>
          (s\<lparr>validationFailCount := validationFailCount s + 1,
             failedCount := failedCount s + 1\<rparr>, sr)
      | _ \<Rightarrow> (s\<lparr>errorCount := errorCount s + 1, failedCount := failedCount s + 1\<rparr>, Error))"

definition reconciled :: "ParsedLog \<Rightarrow> bool \<Rightarrow> string \<Rightarrow> bool \<Rightarrow> bool \<Rightarrow> SkinResult" where
  "reconciled parsed timedOut ident moved inShared =
     (let sr0 = (case perItem parsed ident of Some r \<Rightarrow> r | None \<Rightarrow> Unknown);
          sr1 = (if moved \<or> inShared then Success
                 else if sr0 = Success then ValidationFailed
                 else sr0)
      in if timedOut \<and> sr1 \<noteq> Success then Timeout else sr1)"

definition reconcile_one :: "faults \<Rightarrow> path \<Rightarrow> ParsedLog \<Rightarrow> bool \<Rightarrow> state \<Rightarrow> string \<Rightarrow> state" where
  "reconcile_one f instanceDir parsed timedOut s ident =
     (let (moved, t) = moveSkinToShared f instanceDir ident (fs s);
          inShared = folderHasFiles f t (skin_dst ident);
          sr = reconciled parsed timedOut ident moved inShared;
          (s1, sr') = count_outcome (s\<lparr>fs := t\<rparr>) sr
      in s1\<lparr>totalProcessed := totalProcessed s1 + 1,
             skinResults := (skinResults s1)(ident \<mapsto> sr')\<rparr>)"

definition reconcile :: "faults \<Rightarrow> path \<Rightarrow> ParsedLog \<Rightarrow> bool \<Rightarrow> state \<Rightarrow> string list \<Rightarrow> state" where
  "reconcile f instanceDir parsed timedOut s chunk =
     foldl (reconcile_one f instanceDir parsed timedOut) s chunk"

text \<open>
  \<^verbatim>\<open>workerInstance\<close>. An empty chunk returns at once. The two directories are created
  inside one \<^verbatim>\<open>try\<close> block whose exceptions are ignored, the staging folders are cleaned,
  and the script is written; when the script cannot be opened (\<open>script_opens\<close> is
  false) the worker logs an error and returns. Otherwise the tool runs, the script is removed, the log is classified,
  the rate-limit flag is raised when the log shows a rate limit, every identifier of the
  chunk is reconciled, and the staging folders are cleaned again.
\<close>

definition worker_dirs :: "faults \<Rightarrow> path \<Rightarrow> path \<Rightarrow> node \<Rightarrow> node" where
  "worker_dirs f threadTemp instanceDir t =
     (case create_directories f threadTemp t of
        None \<Rightarrow> t
      | Some t1 \<Rightarrow> (case create_directories f instanceDir t1 of None \<Rightarrow> t1 | Some t2 \<Rightarrow> t2))"

definition thread_temp :: "int \<Rightarrow> path" where
  "thread_temp threadId = TEMP_DIR @ [''t'' @ to_string threadId]"

definition script_path :: "int \<Rightarrow> path" where
  "script_path threadId = thread_temp threadId @ [''script.txt'']"

definition prepared_fs :: "faults \<Rightarrow> int \<Rightarrow> node \<Rightarrow> node" where
  "prepared_fs f threadId t =
     cleanStagingFolder f (inst_dir threadId)
       (worker_dirs f (thread_temp threadId) (inst_dir threadId) t)"

definition script_opens :: "env \<Rightarrow> state \<Rightarrow> int \<Rightarrow> bool" where
  "script_opens e s threadId =
     ofstream_opens (faults_of e) (prepared_fs (faults_of e) threadId (fs s))
       (script_path threadId)"

text \<open>The run of the tool on the tree that holds the script, and the state after the
  run: the script is removed (a failure is ignored) and the rate-limit flag is raised
  when the log shows a rate limit.\<close>

definition run_tool :: "env \<Rightarrow> state \<Rightarrow> string list \<Rightarrow> int \<Rightarrow> int \<Rightarrow> tool_run" where
  "run_tool e s chunk threadId pass =
     steamcmd e pass threadId chunk
       (update_at (script_path threadId) (Some (File (length (script_text threadId chunk))))
          (prepared_fs (faults_of e) threadId (fs s)))"

definition after_tool :: "env \<Rightarrow> state \<Rightarrow> string list \<Rightarrow> int \<Rightarrow> tool_run \<Rightarrow> state" where
  "after_tool e s chunk threadId run =
     s\<lparr>fs := (case remove (faults_of e) (script_path threadId) (fs_after run) of
                None \<Rightarrow> fs_after run
              | Some t \<Rightarrow> t),
       anyRateLimitDetected :=
         (globalRateLimit (parseSteamCmdLog (log_text run) chunk) \<or> anyRateLimitDetected s)\<rparr>"

definition workerInstance :: "env \<Rightarrow> state \<Rightarrow> string list \<Rightarrow> int \<Rightarrow> int \<Rightarrow> int \<Rightarrow> state" where
  "workerInstance e s chunk threadId grandTotal pass =
     (if chunk = [] then s
      else if \<not> script_opens e s threadId
        then s\<lparr>fs := prepared_fs (faults_of e) threadId (fs s)\<rparr>
      else
        let run = run_tool e s chunk threadId pass;
            parsed = parseSteamCmdLog (log_text run) chunk;
            s1 = after_tool e s chunk threadId run;
            s2 = reconcile (faults_of e) (inst_dir threadId) parsed (timed_out run) s1 chunk
        in s2\<lparr>fs := cleanStagingFolder (faults_of e) (inst_dir threadId) (fs s2)\<rparr>)"

section \<open>Pass scheduler and retry controller (downloader2\_2.cpp, runPass and main)\<close>

text \<open>
  \<^verbatim>\<open>runPass\<close>: the chunks are cut, the dispatch is logged, the shared lock files are
  cleaned and one worker per chunk is started. The workers of a pass work on disjoint
  identifiers and instance directories; the model runs them one after the other in the
  order of their indices.
\<close>

definition runPass :: "env \<Rightarrow> state \<Rightarrow> string list \<Rightarrow> int \<Rightarrow> int \<Rightarrow> int \<Rightarrow> state" where
  "runPass e s toDownload instances pass grandTotal =
     (if toDownload = [] then s
      else case runPass_chunks toDownload instances of
        None \<Rightarrow> s
      | Some chunks \<Rightarrow>
          let n = min instances (int (length toDownload));
              s1 = s\<lparr>pass_log := pass_log s @ [(pass, instances, n)],
                     fs := cleanSharedPatchFiles (faults_of e) (fs s)\<rparr>
          in foldl (\<lambda>s' (i, chunk). workerInstance e s' chunk (int i) grandTotal pass)
               s1 (zip [0..<length chunks] chunks))"

definition collectFailed :: "state \<Rightarrow> string list \<Rightarrow> string list" where
  "collectFailed s ids =
     filter (\<lambda>ident. case skinResults s ident of
                        Some r \<Rightarrow> r \<noteq> Success \<and> r \<noteq> Skipped
                      | None \<Rightarrow> False) ids"

definition reset_one :: "state \<Rightarrow> string \<Rightarrow> state" where
  "reset_one s ident =
     (case skinResults s ident of
        None \<Rightarrow> s
      | Some r \<Rightarrow>
          (let s1 = (case r of
                       Timeout \<Rightarrow> s\<lparr>timeoutCount := timeoutCount s - 1\<rparr>
                     | RateLimit \<Rightarrow> s\<lparr>ratelimitCount := ratelimitCount s - 1\<rparr>
                     | LockFailed \<Rightarrow> s\<lparr>lockFailCount := lockFailCount s - 1\<rparr>
                     | ValidationFailed \<Rightarrow> s\<lparr>validationFailCount := validationFailCount s - 1\<rparr>
                     | _ \<Rightarrow> s\<lparr>errorCount := errorCount s - 1\<rparr>)
           in s1\<lparr>failedCount := failedCount s1 - 1,
                  totalProcessed := totalProcessed s1 - 1,
                  skinResults := (skinResults s1)(ident \<mapsto> Unknown)\<rparr>))"

definition resetCountersForRetry :: "state \<Rightarrow> string list \<Rightarrow> state" where
  "resetCountersForRetry s ids = foldl reset_one s ids"

text \<open>
  The retry loop of \<^verbatim>\<open>main\<close>, \<^verbatim>\<open>for (retry = 1; retry <= MAX_RETRY_PASSES; ++retry)\<close>, run
  over the list of the remaining values of \<open>retry\<close>. It leaves at the first pass after
  which nothing failed. Before a retry pass the staging folders of all instances and the
  shared lock files are cleaned, the rate-limit flag is cleared (after the back-off
  sleep), the counters of the failed identifiers are taken back, and the pass is
  dispatched with \<^verbatim>\<open>std::max(1, maxInstances / 2)\<close> instances.
\<close>

definition prepare_retry :: "env \<Rightarrow> state \<Rightarrow> int \<Rightarrow> string list \<Rightarrow> state" where
  "prepare_retry e s maxInstances failed =
     (let f = faults_of e;
          t1 = foldl (\<lambda>t i. cleanStagingFolder f (inst_dir (int i)) t) (fs s) [0..<nat maxInstances];
          t2 = cleanSharedPatchFiles f t1;
          s1 = s\<lparr>fs := t2, anyRateLimitDetected := False\<rparr>
      in resetCountersForRetry s1 failed)"

fun retry_loop :: "env \<Rightarrow> state \<Rightarrow> string list \<Rightarrow> int \<Rightarrow> int \<Rightarrow> int list \<Rightarrow> state" where
  "retry_loop e s toProcess maxInstances grandTotal [] = s"
| "retry_loop e s toProcess maxInstances grandTotal (retry # rest) =
     (let failed = collectFailed s toProcess in
      if failed = [] then s
      else
        let s1 = prepare_retry e s maxInstances failed;
            retryInst = max 1 (maxInstances div 2);
            s2 = runPass e s1 failed retryInst (retry + 1) grandTotal
        in retry_loop e s2 toProcess maxInstances grandTotal rest)"

text \<open>
  The passes of \<^verbatim>\<open>main\<close>, from the work list \<open>toProcess\<close> and the number the user typed:
  the number is raised to 1 when it is smaller, an empty work list ends the program,
  otherwise pass 1 runs with \<open>maxInstances\<close> and the retry loop follows.
\<close>

definition main_passes :: "env \<Rightarrow> state \<Rightarrow> string list \<Rightarrow> int \<Rightarrow> state" where
  "main_passes e s toProcess typed =
     (let maxInstances = (if typed < 1 then 1 else typed);
          grandTotal = int (length toProcess)
      in if grandTotal = 0 then s
         else retry_loop e (runPass e s toProcess maxInstances 1 grandTotal)
                toProcess maxInstances grandTotal [1..MAX_RETRY_PASSES])"

text \<open>
  \<^verbatim>\<open>resultName\<close> and the list of failed identifiers that \<^verbatim>\<open>writeReport\<close> writes below the
  counters of the report: one line \<^verbatim>\<open><id>  [<outcome>]\<close> for every identifier of the input
  that has an entry other than \<open>Success\<close> and \<open>Skipped\<close>.
\<close>

definition resultName :: "SkinResult \<Rightarrow> string" where
  "resultName r =
     (case r of
        Success \<Rightarrow> ''Success''
      | Skipped \<Rightarrow> ''Skipped''
      | Timeout \<Rightarrow> ''Timeout''
      | RateLimit \<Rightarrow> ''RateLimit''
      | LockFailed \<Rightarrow> ''LockFailed''
      | ValidationFailed \<Rightarrow> ''ValidationFailed''
      | Error \<Rightarrow> ''Error''
      | _ \<Rightarrow> ''Unknown'')"

definition report_failed :: "state \<Rightarrow> string list \<Rightarrow> string list" where
  "report_failed s allIds =
     concat (map (\<lambda>ident. case skinResults s ident of
                    None \<Rightarrow> []
                  | Some r \<Rightarrow> if r \<noteq> Success \<and> r \<noteq> Skipped
                              then [ident @ ''  ['' @ resultName r @ '']''] else [])
               allIds)"

section \<open>Manifest patcher (the acf patcher: string helpers, parseAcf, entry builders, main)\<close>

text \<open>\<^verbatim>\<open>trimStr\<close> strips blanks, tabs, carriage returns and line feeds at both ends;
  \<^verbatim>\<open>firstQuotedToken\<close> is the text between the first two double quotes of a line, empty
  when there are fewer than two; \<^verbatim>\<open>isAllDigits\<close> holds of a non-empty string of digits.\<close>

definition is_blank :: "char \<Rightarrow> bool" where
  "is_blank c = (c \<in> set [CHR '' '', CHR 0x09, CHR 0x0D, CHR 0x0A])"

definition trimStr :: "string \<Rightarrow> string" where
  "trimStr s = rev (dropWhile is_blank (rev (dropWhile is_blank s)))"

definition firstQuotedToken :: "string \<Rightarrow> string" where
  "firstQuotedToken line =
     (case dropWhile (\<lambda>c. c \<noteq> dquote) line of
        [] \<Rightarrow> []
      | q # rest \<Rightarrow> if dquote \<in> set rest then takeWhile (\<lambda>c. c \<noteq> dquote) rest else [])"

definition isAllDigits :: "string \<Rightarrow> bool" where
  "isAllDigits s = (s \<noteq> [] \<and> list_all is_digit s)"

datatype Sec = NoSec | Installed | Details | Other

record AcfInfo =
  installedIds :: "string set"
  detailsIds :: "string set"
  installedCloseLineIdx :: int
  detailsCloseLineIdx :: int

text \<open>
  One iteration of the loop of \<^verbatim>\<open>parseAcf\<close> on line \<open>i\<close>; the state is the result under
  construction, the current section and the absolute brace depth.
\<close>

definition acf_step :: "AcfInfo \<times> Sec \<times> int \<Rightarrow> nat \<times> string \<Rightarrow> AcfInfo \<times> Sec \<times> int" where
  "acf_step st il =
     (let info = fst st; cur = fst (snd st); depth = snd (snd st);
          i = int (fst il); t = trimStr (snd il) in
      if t = ''{'' then (info, cur, depth + 1)
      else if t = ''}'' then
        (let info1 = (if depth = 2 \<and> cur = Installed then info\<lparr>installedCloseLineIdx := i\<rparr>
                      else if depth = 2 \<and> cur = Details then info\<lparr>detailsCloseLineIdx := i\<rparr>
                      else info);
             cur1 = (if depth = 2 then NoSec else cur)
         in (info1, cur1, if depth > 0 then depth - 1 else depth))
      else if t = [] \<or> hd t \<noteq> dquote then st
      else
        (let key = firstQuotedToken t in
         if key = [] then st
         else if depth = 1 then
           (info,
            if key = ''WorkshopItemsInstalled'' then Installed
            else if key = ''WorkshopItemDetails'' then Details
            else Other,
            depth)
         else if depth = 2 then
           (if isAllDigits key \<and> cur = Installed
              then info\<lparr>installedIds := insert key (installedIds info)\<rparr>
            else if isAllDigits key \<and> cur = Details
              then info\<lparr>detailsIds := insert key (detailsIds info)\<rparr>
            else info,
            cur, depth)
         else st))"

definition parseAcf :: "string list \<Rightarrow> AcfInfo" where
  "parseAcf lines =
     fst (foldl acf_step
            (\<lparr>installedIds = {}, detailsIds = {},
              installedCloseLineIdx = - 1, detailsCloseLineIdx = - 1\<rparr>, NoSec, 0)
            (zip [0..<length lines] lines))"

record SkinInfo =
  skin_id :: string
  skin_size :: nat
  timeupdated :: int
  timetouched :: int

definition tab :: char where
  "tab = CHR 0x09"

definition nl :: char where
  "nl = CHR 0x0A"

definition quoted :: "string \<Rightarrow> string" where
  "quoted s = dquote # s @ [dquote]"

definition buildInstalledEntry :: "SkinInfo \<Rightarrow> string" where
  "buildInstalledEntry s =
     [tab, tab] @ quoted (skin_id s) @ [nl]
     @ [tab, tab] @ ''{'' @ [nl]
     @ [tab, tab, tab] @ quoted ''size'' @ [tab, tab] @ quoted (to_string (int (skin_size s))) @ [nl]
     @ [tab, tab, tab] @ quoted ''timeupdated'' @ [tab, tab] @ quoted (to_string (timeupdated s)) @ [nl]
     @ [tab, tab, tab] @ quoted ''manifest'' @ [tab, tab] @ quoted ''0'' @ [nl]
     @ [tab, tab] @ ''}'' @ [nl]"

definition buildDetailsEntry :: "SkinInfo \<Rightarrow> string" where
  "buildDetailsEntry s =
     [tab, tab] @ quoted (skin_id s) @ [nl]
     @ [tab, tab] @ ''{'' @ [nl]
     @ [tab, tab, tab] @ quoted ''manifest'' @ [tab, tab] @ quoted ''0'' @ [nl]
     @ [tab, tab, tab] @ quoted ''timeupdated'' @ [tab, tab] @ quoted (to_string (timeupdated s)) @ [nl]
     @ [tab, tab, tab] @ quoted ''timetouched'' @ [tab, tab] @ quoted (to_string (timetouched s)) @ [nl]
     @ [tab, tab, tab] @ quoted ''latest_timeupdated'' @ [tab, tab]
       @ quoted (to_string (timeupdated s)) @ [nl]
     @ [tab, tab, tab] @ quoted ''latest_manifest'' @ [tab, tab] @ quoted ''0'' @ [nl]
     @ [tab, tab] @ ''}'' @ [nl]"

text \<open>
  Reading the manifest and splitting an insertion block: \<^verbatim>\<open>std::getline\<close>, then one
  trailing carriage return is dropped.
\<close>

definition strip_cr :: "string \<Rightarrow> string" where
  "strip_cr ln = (if ln \<noteq> [] \<and> last ln = CHR 0x0D then butlast ln else ln)"

definition splitLines :: "string \<Rightarrow> string list" where
  "splitLines block = map strip_cr (getlines block)"

definition read_lines :: "string \<Rightarrow> string list" where
  "read_lines content = map strip_cr (getlines content)"

definition write_lines :: "string list \<Rightarrow> string" where
  "write_lines lines = concat (map (\<lambda>ln. ln @ [nl]) lines)"

text \<open>
  What the patcher reads besides the manifest and the tree: the publish date found in
  the \<^verbatim>\<open>manifest.txt\<close> of a skin (0 when there is none), the newest modification time
  of its files, the clock, the answers of the user and whether the backup and the
  opening of the manifest for writing succeed.
\<close>

record patch_env =
  patch_faults :: faults
  manifest_date :: "string \<Rightarrow> int"
  newest_mtime :: "string \<Rightarrow> int"
  now :: int
  confirm_patch :: bool
  backup_ok :: bool
  confirm_without_backup :: bool
  write_opens :: bool

text \<open>\<^verbatim>\<open>folderSize\<close>: the sizes of all regular files below a directory.\<close>

fun folderSize :: "node \<Rightarrow> nat" where
  "folderSize (File s) = s"
| "folderSize (Dir cs) = sum_list (map (\<lambda>(n, c). folderSize c) cs)"

definition readSkinInfo :: "patch_env \<Rightarrow> string \<Rightarrow> node \<Rightarrow> SkinInfo" where
  "readSkinInfo pe name dir =
     \<lparr>skin_id = name,
      skin_size = folderSize dir,
      timeupdated = (if manifest_date pe name > 0 then manifest_date pe name
                     else newest_mtime pe name),
      timetouched = now pe\<rparr>"

text \<open>
  The scan of the content folder in \<^verbatim>\<open>main\<close>: the sub-directories, sorted by name, are
  visited; a name that is not all digits, a folder without files, and a folder whose
  identifier is in both sections are skipped, every other folder is queued. An exception
  of the directory iterator ends the program (\<open>None\<close>). \<open>insert_by_name\<close> sorts with
  \<^verbatim>\<open>std::string\<close>'s order, the lexicographic order of the bytes.
\<close>

fun str_less :: "string \<Rightarrow> string \<Rightarrow> bool" where
  "str_less [] [] = False"
| "str_less [] (y # ys) = True"
| "str_less (x # xs) [] = False"
| "str_less (x # xs) (y # ys) =
     ((of_char x :: nat) < of_char y \<or> (x = y \<and> str_less xs ys))"

fun insert_by_name :: "string \<times> node \<Rightarrow> (string \<times> node) list \<Rightarrow> (string \<times> node) list" where
  "insert_by_name e [] = [e]"
| "insert_by_name e (x # xs) =
     (if str_less (fst e) (fst x) then e # x # xs else x # insert_by_name e xs)"

definition sort_by_name :: "(string \<times> node) list \<Rightarrow> (string \<times> node) list" where
  "sort_by_name es = foldr insert_by_name es []"

definition is_directory_entry :: "string \<times> node \<Rightarrow> bool" where
  "is_directory_entry e = (case snd e of Dir _ \<Rightarrow> True | File _ \<Rightarrow> False)"

definition queued :: "patch_env \<Rightarrow> AcfInfo \<Rightarrow> node \<Rightarrow> path \<Rightarrow> string \<times> node \<Rightarrow> bool" where
  "queued pe acf t contentDir e =
     (isAllDigits (fst e)
      \<and> folderHasFiles (patch_faults pe) t (contentDir @ [fst e])
      \<and> \<not> (fst e \<in> installedIds acf \<and> fst e \<in> detailsIds acf))"

definition scan_content :: "patch_env \<Rightarrow> AcfInfo \<Rightarrow> node \<Rightarrow> path \<Rightarrow> SkinInfo list option" where
  "scan_content pe acf t contentDir =
     (case lookup t contentDir of
        Some (Dir cs) \<Rightarrow>
          if unreadable (patch_faults pe) contentDir then None
          else Some (map (\<lambda>e. readSkinInfo pe (fst e) (snd e))
                       (filter (queued pe acf t contentDir)
                          (sort_by_name (filter is_directory_entry cs))))
      | _ \<Rightarrow> None)"

text \<open>
  The splice of \<^verbatim>\<open>main\<close>. \<open>insert_at\<close> is \<^verbatim>\<open>lines.insert(lines.begin() + idx, ...)\<close>. When
  the details section closes after the installed section, the details block goes in
  first, then the installed block. Otherwise the installed block goes in first and the
  details index is raised by the number of installed lines before the details block
  goes in.
\<close>

definition insert_at :: "int \<Rightarrow> string list \<Rightarrow> string list \<Rightarrow> string list" where
  "insert_at idx new lines = take (nat idx) lines @ new @ drop (nat idx) lines"

definition installedInsert :: "AcfInfo \<Rightarrow> SkinInfo list \<Rightarrow> string" where
  "installedInsert acf toAdd =
     concat (map buildInstalledEntry (filter (\<lambda>si. skin_id si \<notin> installedIds acf) toAdd))"

definition detailsInsert :: "AcfInfo \<Rightarrow> SkinInfo list \<Rightarrow> string" where
  "detailsInsert acf toAdd =
     concat (map buildDetailsEntry (filter (\<lambda>si. skin_id si \<notin> detailsIds acf) toAdd))"

definition splice :: "AcfInfo \<Rightarrow> SkinInfo list \<Rightarrow> string list \<Rightarrow> string list" where
  "splice acf toAdd lines =
     (let instIdx = installedCloseLineIdx acf;
          detIdx = detailsCloseLineIdx acf;
          iBlock = installedInsert acf toAdd;
          dBlock = detailsInsert acf toAdd
      in if detIdx > instIdx then
           (let l1 = (if dBlock \<noteq> [] then insert_at detIdx (splitLines dBlock) lines else lines)
            in if iBlock \<noteq> [] then insert_at instIdx (splitLines iBlock) l1 else l1)
         else
           (let l1 = (if iBlock \<noteq> [] then insert_at instIdx (splitLines iBlock) lines else lines);
                detIdx1 = (if iBlock \<noteq> [] then detIdx + int (length (splitLines iBlock))
                           else detIdx)
            in if dBlock \<noteq> [] then insert_at detIdx1 (splitLines dBlock) l1 else l1))"

text \<open>
  \<^verbatim>\<open>main\<close> from the point where the manifest has been read into memory: the outcome
  names the exit taken, and only \<open>Patched\<close> carries a new content of the manifest file.
\<close>

datatype patch_outcome =
  NoSections | ScanFailed | UpToDate | Declined | BackupRefused | WriteFailed | Patched string

definition patch_acf :: "patch_env \<Rightarrow> node \<Rightarrow> path \<Rightarrow> string \<Rightarrow> patch_outcome" where
  "patch_acf pe t contentDir content =
     (let lines = read_lines content; acf = parseAcf lines in
      if installedCloseLineIdx acf < 0 \<or> detailsCloseLineIdx acf < 0 then NoSections
      else case scan_content pe acf t contentDir of
        None \<Rightarrow> ScanFailed
      | Some toAdd \<Rightarrow>
          if toAdd = [] then UpToDate
          else if \<not> confirm_patch pe then Declined
          else if \<not> backup_ok pe \<and> \<not> confirm_without_backup pe then BackupRefused
          else if \<not> write_opens pe then WriteFailed
          else Patched (write_lines (splice acf toAdd lines)))"

definition acf_after :: "patch_env \<Rightarrow> node \<Rightarrow> path \<Rightarrow> string \<Rightarrow> string" where
  "acf_after pe t contentDir content =
     (case patch_acf pe t contentDir content of Patched out \<Rightarrow> out | _ \<Rightarrow> content)"

text \<open>
  The splice in the words of the specification: every line of the input is kept, the
  installed block stands immediately before the closing line of the installed section
  and the details block immediately before the closing line of the details section.
\<close>

definition spec_splice :: "AcfInfo \<Rightarrow> SkinInfo list \<Rightarrow> string list \<Rightarrow> string list" where
  "spec_splice acf toAdd lines =
     concat (map (\<lambda>(i, ln).
                    (if int i = installedCloseLineIdx acf
                     then splitLines (installedInsert acf toAdd) else [])
                    @ (if int i = detailsCloseLineIdx acf
                       then splitLines (detailsInsert acf toAdd) else [])
                    @ [ln])
              (zip [0..<length lines] lines))"

section \<open>Auxiliary notions and sample inputs\<close>

text \<open>Two paths diverge when neither is the other or an ancestor of the other; an
  operation at one of them leaves the other as it was.\<close>

definition diverge :: "path \<Rightarrow> path \<Rightarrow> bool" where
  "diverge p q = (\<not> prefix p q \<and> \<not> prefix q p)"

text \<open>
  Sample inputs: an environment without faults, the state at the start of a run, a skin
  folder with one file, a tool that downloads item 490217825 into its instance directory
  and reports success, a tool that does nothing, and a file system in which no script
  can be opened.
\<close>

definition no_faults :: faults where
  "no_faults = \<lparr>unreadable = (\<lambda>_. False), mkdir_fails = (\<lambda>_. False),
                 rename_fails = (\<lambda>_ _. False), copy_limit = (\<lambda>_ _. None),
                 remove_fails = (\<lambda>_. False), open_fails = (\<lambda>_. False)\<rparr>"

definition initial_state :: "node \<Rightarrow> state" where
  "initial_state t = \<lparr>fs = t, skinResults = Map.empty, successCount = 0, failedCount = 0,
     skippedCount = 0, timeoutCount = 0, errorCount = 0, ratelimitCount = 0,
     lockFailCount = 0, validationFailCount = 0, totalProcessed = 0,
     anyRateLimitDetected = False, pass_log = []\<rparr>"

fun nest :: "path \<Rightarrow> node \<Rightarrow> node" where
  "nest [] n = n"
| "nest (x # xs) n = Dir [(x, nest xs n)]"

definition skin_dir :: node where
  "skin_dir = Dir [(''skin.png'', File 2048)]"

definition downloading_tool :: "int \<Rightarrow> int \<Rightarrow> string list \<Rightarrow> node \<Rightarrow> tool_run" where
  "downloading_tool pass threadId chunk t =
     \<lparr>fs_after = (case mkdirs (skin_src (inst_dir threadId) ''490217825'') t of
                    None \<Rightarrow> t
                  | Some t1 \<Rightarrow> update_at (skin_src (inst_dir threadId) ''490217825'' @ [''skin.png''])
                                (Some (File 2048)) t1),
      log_text = Some ''Success. Downloaded item 490217825'',
      timed_out = False\<rparr>"

definition idle_tool :: "int \<Rightarrow> int \<Rightarrow> string list \<Rightarrow> node \<Rightarrow> tool_run" where
  "idle_tool pass threadId chunk t = \<lparr>fs_after = t, log_text = None, timed_out = False\<rparr>"

definition start_tree :: node where
  "start_tree = Dir [(''logs'', Dir []), (''rust_workshop'', nest [''steamapps'', ''workshop'', ''content'', ''252490''] (Dir [])),
                     (''temp_scripts'', Dir [])]"

definition env_download :: env where
  "env_download = \<lparr>faults_of = no_faults, steamcmd = downloading_tool\<rparr>"

definition env_no_script :: env where
  "env_no_script = \<lparr>faults_of = no_faults\<lparr>open_fails := (\<lambda>_. True)\<rparr>, steamcmd = idle_tool\<rparr>"


definition tree_both :: node where
  "tree_both = Dir [(''instances'', nest [''rust_workshop_t0'', ''steamapps'', ''workshop'', ''content'', ''252490'', ''490217825''] skin_dir),
                    (''rust_workshop'', nest [''steamapps'', ''workshop'', ''content'', ''252490'', ''490217825''] skin_dir)]"

definition tree_instance_only :: node where
  "tree_instance_only = Dir [(''instances'', nest [''rust_workshop_t0'', ''steamapps'', ''workshop'', ''content'', ''252490'', ''490217825''] skin_dir)]"

text \<open>A run in which the tool downloads nothing, on four identifiers.\<close>

definition env_idle :: env where
  "env_idle = \<lparr>faults_of = no_faults, steamcmd = idle_tool\<rparr>"

definition four_ids :: "string list" where
  "four_ids = [''100001'', ''100002'', ''100003'', ''100004'']"

text \<open>The retry rule in the words of the specification, on the log of the dispatches:
  every pass after the first is requested with half the instances of the pass before
  it, at least one.\<close>

fun spec_halves_each_pass :: "(int \<times> int \<times> int) list \<Rightarrow> bool" where
  "spec_halves_each_pass (a # b # rest) =
     (fst (snd b) = max 1 (fst (snd a) div 2) \<and> spec_halves_each_pass (b # rest))"
| "spec_halves_each_pass [a] = True"
| "spec_halves_each_pass [] = True"

text \<open>
  Sample manifests: one that lists item 111 in both sections, and one whose details
  section stands before its installed section, both sections empty. The content folder
  holds one skin folder with a file, beside a plain file.
\<close>

definition acf_line :: "nat \<Rightarrow> string \<Rightarrow> string" where
  "acf_line k s = replicate k tab @ s"

definition patched_manifest :: "string list" where
  "patched_manifest =
     [quoted ''AppWorkshop'', ''{'',
      acf_line 1 (quoted ''appid'' @ [tab, tab] @ quoted ''252490''),
      acf_line 1 (quoted ''WorkshopItemsInstalled''), acf_line 1 ''{'',
      acf_line 2 (quoted ''111''), acf_line 2 ''{'',
      acf_line 3 (quoted ''size'' @ [tab, tab] @ quoted ''2048''), acf_line 2 ''}'',
      acf_line 1 ''}'',
      acf_line 1 (quoted ''WorkshopItemDetails''), acf_line 1 ''{'',
      acf_line 2 (quoted ''111''), acf_line 2 ''{'',
      acf_line 3 (quoted ''manifest'' @ [tab, tab] @ quoted ''0''), acf_line 2 ''}'',
      acf_line 1 ''}'',
      ''}'']"

definition details_first_manifest :: "string list" where
  "details_first_manifest =
     [quoted ''AppWorkshop'', ''{'',
      acf_line 1 (quoted ''WorkshopItemDetails''), acf_line 1 ''{'', acf_line 1 ''}'',
      acf_line 1 (quoted ''WorkshopItemsInstalled''), acf_line 1 ''{'', acf_line 1 ''}'',
      ''}'']"

definition content_dir :: path where
  "content_dir = [''steamapps'', ''workshop'', ''content'', ''252490'']"

definition content_tree :: "string \<Rightarrow> node" where
  "content_tree name = nest content_dir (Dir [(name, skin_dir), (''notes.txt'', File 3)])"

definition patch_env0 :: patch_env where
  "patch_env0 = \<lparr>patch_faults = no_faults, manifest_date = (\<lambda>_. 1700),
                  newest_mtime = (\<lambda>_. 1600), now = 1800,
                  confirm_patch = True, backup_ok = True, confirm_without_backup = False,
                  write_opens = True\<rparr>"

definition skin333 :: SkinInfo where
  "skin333 = \<lparr>skin_id = ''333'', skin_size = 2048, timeupdated = 1700, timetouched = 1800\<rparr>"

text \<open>
  A manifest with two empty sections, the installed section first, and the manifest file
  that one run of the patcher leaves for the content folder holding skin 333.
\<close>

definition installed_first_manifest :: "string list" where
  "installed_first_manifest =
     [quoted ''AppWorkshop'', ''{'',
      acf_line 1 (quoted ''WorkshopItemsInstalled''), acf_line 1 ''{'', acf_line 1 ''}'',
      acf_line 1 (quoted ''WorkshopItemDetails''), acf_line 1 ''{'', acf_line 1 ''}'',
      ''}'']"

definition first_run :: "string list \<Rightarrow> string" where
  "first_run m = acf_after patch_env0 (content_tree ''333'') content_dir (write_lines m)"

text \<open>
  A run on two identifiers in which the tool downloads nothing and the script of
  instance 0, \<^verbatim>\<open>temp_scripts/t0/script.txt\<close>, cannot be opened.
\<close>

definition env_t0_blocked :: env where
  "env_t0_blocked = \<lparr>faults_of = no_faults\<lparr>open_fails := (\<lambda>p. p = script_path 0)\<rparr>,
                      steamcmd = idle_tool\<rparr>"

definition two_ids :: "string list" where
  "two_ids = [''490217825'', ''490217826'']"

text \<open>\<open>marked X k ls\<close> writes, before the line of index \<open>k + j\<close>, the block \<open>X (k + j)\<close>.\<close>

definition marked :: "(nat \<Rightarrow> string list) \<Rightarrow> nat \<Rightarrow> string list \<Rightarrow> string list" where
  "marked X k ls = concat (map (\<lambda>(i, ln). X i @ [ln]) (zip [k..<k + length ls] ls))"

section \<open>Properties of the partitioner\<close>

definition chunk_size :: "int \<Rightarrow> int \<Rightarrow> nat \<Rightarrow> nat" where
  "chunk_size base rem i = nat (base + (if int i < rem then 1 else 0))"

lemma chunks_from_length: "length (chunks_from ids base rem is idx) = length is"
  by (induction "is" arbitrary: idx) (simp_all add: Let_def)

lemma take_take_drop:
  "take a xs @ take b (drop (length (take a xs)) xs) = take (a + b) xs"
proof (cases "a \<le> length xs")
  case True
  then show ?thesis by (simp add: take_add min_def)
next
  case False
  then show ?thesis by simp
qed

lemma chunks_from_concat:
  "concat (chunks_from ids base rem is idx) =
     take (sum_list (map (chunk_size base rem) is)) (drop idx ids)"
proof (induction "is" arbitrary: idx)
  case Nil
  show ?case by simp
next
  case (Cons i "is")
  let ?sz = "chunk_size base rem i"
  let ?c = "take ?sz (drop idx ids)"
  have "concat (chunks_from ids base rem (i # is) idx) =
        ?c @ concat (chunks_from ids base rem is (idx + length ?c))"
    by (simp add: Let_def chunk_size_def)
  also have "\<dots> = ?c @ take (sum_list (map (chunk_size base rem) is))
                         (drop (length ?c) (drop idx ids))"
    by (simp add: Cons.IH add.commute)
  also have "\<dots> = take (?sz + sum_list (map (chunk_size base rem) is)) (drop idx ids)"
    by (rule take_take_drop)
  finally show ?case by simp
qed

lemma chunks_from_sizes:
  "idx + sum_list (map (chunk_size base rem) is) \<le> length ids \<Longrightarrow>
   map length (chunks_from ids base rem is idx) = map (chunk_size base rem) is"
proof (induction "is" arbitrary: idx)
  case Nil
  show ?case by simp
next
  case (Cons i "is")
  let ?sz = "chunk_size base rem i"
  from Cons.prems have le: "idx + ?sz \<le> length ids" by simp
  then have len: "length (take ?sz (drop idx ids)) = ?sz" by simp
  from Cons.prems have "(idx + ?sz) + sum_list (map (chunk_size base rem) is) \<le> length ids"
    by simp
  from Cons.IH [OF this] len show ?case
    by (simp add: Let_def chunk_size_def)
qed

lemma sum_chunk_size_upt:
  assumes "0 \<le> base" "0 \<le> rem"
  shows "int (sum_list (map (chunk_size base rem) [0..<k])) = int k * base + min (int k) rem"
proof (induction k)
  case 0
  from assms show ?case by simp
next
  case (Suc k)
  from assms have "int (chunk_size base rem k) = base + (if int k < rem then 1 else 0)"
    by (simp add: chunk_size_def)
  with Suc show ?case
    by (simp add: algebra_simps min_def)
qed

lemma sum_chunk_size_total:
  assumes "0 < n"
  shows "sum_list (map (chunk_size (int m div n) (int m mod n)) [0..<nat n]) = m"
proof -
  let ?b = "int m div n" and ?r = "int m mod n"
  from assms have b: "0 \<le> ?b" and r: "0 \<le> ?r" and rn: "?r < n"
    by (simp_all add: pos_imp_zdiv_nonneg_iff)
  have "int (sum_list (map (chunk_size ?b ?r) [0..<nat n])) = int (nat n) * ?b + min (int (nat n)) ?r"
    by (rule sum_chunk_size_upt [OF b r])
  also from assms r rn have "\<dots> = n * ?b + ?r" by simp
  also have "\<dots> = int m" by simp
  finally show ?thesis by simp
qed

lemma partition_shape:
  assumes "0 < n" and "partition ids n = Some chunks"
  shows "length chunks = nat n"
    and "concat chunks = ids"
    and "map length chunks = map (chunk_size (int (length ids) div n) (int (length ids) mod n)) [0..<nat n]"
proof -
  let ?b = "int (length ids) div n" and ?r = "int (length ids) mod n"
  from assms have ch: "chunks = chunks_from ids ?b ?r [0..<nat n] 0"
    by (simp add: partition_def)
  have tot: "sum_list (map (chunk_size ?b ?r) [0..<nat n]) = length ids"
    by (rule sum_chunk_size_total [OF assms(1)])
  show "length chunks = nat n" by (simp add: ch chunks_from_length)
  show "concat chunks = ids" by (simp add: ch chunks_from_concat tot)
  show "map length chunks = map (chunk_size ?b ?r) [0..<nat n]"
    unfolding ch by (rule chunks_from_sizes) (simp add: tot)
qed

lemma chunk_size_cases:
  "0 \<le> base \<Longrightarrow> chunk_size base rem i = nat base \<or> chunk_size base rem i = nat base + 1"
  by (auto simp: chunk_size_def)

text \<open>
  Claim C8. For a non-empty working set and a requested concurrency \<open>N \<ge> 1\<close>, the pass
  scheduler cuts the working set into \<open>min N |workingSet|\<close> chunks; their concatenation in
  order is the working set, and any two chunk sizes differ by at most one.
\<close>

theorem runPass_chunks_even_partition:
  assumes "ws \<noteq> []" and "1 \<le> N"
  shows "\<exists>chunks. runPass_chunks ws N = Some chunks
           \<and> int (length chunks) = min N (int (length ws))
           \<and> concat chunks = ws
           \<and> (\<forall>c1 \<in> set chunks. \<forall>c2 \<in> set chunks. length c1 \<le> length c2 + 1)"
proof -
  let ?n = "min N (int (length ws))"
  let ?b = "int (length ws) div ?n" and ?r = "int (length ws) mod ?n"
  from assms have n: "0 < ?n" by (cases ws) simp_all
  then obtain chunks where p: "partition ws ?n = Some chunks"
    by (auto simp: partition_def)
  from assms have run: "runPass_chunks ws N = Some chunks"
    by (simp add: runPass_chunks_def p)
  note shape = partition_shape [OF n p]
  from n have b: "0 \<le> ?b" by (simp add: pos_imp_zdiv_nonneg_iff)
  have sizes: "length c = nat ?b \<or> length c = nat ?b + 1" if "c \<in> set chunks" for c
  proof -
    from that have "length c \<in> set (map length chunks)" by simp
    then have "length c \<in> set (map (chunk_size ?b ?r) [0..<nat ?n])"
      by (simp only: shape(3))
    then obtain i where "length c = chunk_size ?b ?r i" by auto
    with chunk_size_cases [OF b, of ?r i] show ?thesis by simp
  qed
  have "\<forall>c1 \<in> set chunks. \<forall>c2 \<in> set chunks. length c1 \<le> length c2 + 1"
  proof (intro ballI)
    fix c1 c2 assume "c1 \<in> set chunks" "c2 \<in> set chunks"
    with sizes [of c1] sizes [of c2] show "length c1 \<le> length c2 + 1" by auto
  qed
  moreover from shape(1) n have "int (length chunks) = ?n" by simp
  ultimately show ?thesis using run shape(2) by blast
qed

theorem runPass_chunks_even_partition_witness:
  "runPass_chunks [''a'', ''b'', ''c'', ''d'', ''e''] 3
     = Some [[''a'', ''b''], [''c'', ''d''], [''e'']]
   \<and> (\<exists>chunks. runPass_chunks [''a'', ''b'', ''c'', ''d'', ''e''] 3 = Some chunks
           \<and> int (length chunks) = min 3 (int (length [''a'', ''b'', ''c'', ''d'', ''e'']))
           \<and> concat chunks = [''a'', ''b'', ''c'', ''d'', ''e''])"
proof -
  have ne: "[''a'', ''b'', ''c'', ''d'', ''e''] \<noteq> []" by simp
  have ev: "runPass_chunks [''a'', ''b'', ''c'', ''d'', ''e''] 3
              = Some [[''a'', ''b''], [''c'', ''d''], [''e'']]"
    by (simp add: runPass_chunks_def partition_def Let_def upt_conv_Cons)
  from runPass_chunks_even_partition [OF ne, of 3] ev show ?thesis by auto
qed

section \<open>Properties of the input parser\<close>

lemma dquote_not_digit: "\<not> is_digit dquote"
  by (simp add: is_digit_def dquote_def)

lemma rep_counts_set:
  "set (rep_counts ic c lo hi g s) =
     {k. lo \<le> k \<and> k \<le> length (takeWhile (cls_ok ic c) s) \<and> (\<forall>h. hi = Some h \<longrightarrow> k \<le> h)}"
  by (cases hi) (auto simp: rep_counts_def Let_def)

lemma rep_counts_distinct: "distinct (rep_counts ic c lo hi g s)"
  by (simp add: rep_counts_def Let_def del: upt_Suc)

lemma ms_Grp_Rep:
  "ms ic (Grp (Rep c lo hi g)) s = map (\<lambda>k. ([take k s], drop k s)) (rep_counts ic c lo hi g s)"
proof -
  have "k \<le> length s" if "k \<in> set (rep_counts ic c lo hi g s)" for k
  proof -
    from that have "k \<le> length (takeWhile (cls_ok ic c) s)" by (simp add: rep_counts_set)
    also have "\<dots> \<le> length s" by (rule length_takeWhile_le)
    finally show ?thesis .
  qed
  then have "map (\<lambda>k. ([take (length s - length (drop k s)) s], drop k s)) (rep_counts ic c lo hi g s)
           = map (\<lambda>k. ([take k s], drop k s)) (rep_counts ic c lo hi g s)"
    by (intro map_cong refl) simp
  then show ?thesis by (simp add: o_def)
qed

lemma ms_Seq_Lit:
  "ms ic (Seq (Lit w) p) s = (case lit_rest ic w s of None \<Rightarrow> [] | Some r \<Rightarrow> ms ic p r)"
  by (cases "lit_rest ic w s") simp_all

lemma ms_Lit_Nil: "ms ic (Lit []) s = [([], s)]"
  by simp

lemma lit_rest_single:
  "lit_rest False [q] s = (if take 1 s = [q] then Some (drop 1 s) else None)"
  by (cases s) auto

lemma concat_map_single:
  assumes "\<And>k. k \<in> set ks \<Longrightarrow> k \<noteq> n \<Longrightarrow> f k = []" and "distinct ks"
  shows "concat (map f ks) = (if n \<in> set ks then f n else [])"
  using assms by (induction ks) auto

lemma ms_idRe_tail:
  "ms False (Seq (Grp (Rep Digit 6 (Some 12) True)) (Seq (Lit [dquote]) (Lit []))) cs =
     (let run = takeWhile is_digit cs in
      if 6 \<le> length run \<and> length run \<le> 12 \<and> take 1 (drop (length run) cs) = [dquote]
      then [([run], drop (Suc (length run)) cs)] else [])"
proof -
  let ?run = "takeWhile is_digit cs"
  let ?n = "length ?run"
  let ?ks = "rep_counts False Digit 6 (Some 12) True cs"
  let ?f = "\<lambda>k. if take 1 (drop k cs) = [dquote] then [([take k cs], drop (Suc k) cs)] else []"
  have digit: "cls_ok False Digit = is_digit" by (rule ext) simp
  have nle: "?n \<le> length cs" by (rule length_takeWhile_le)
  have "ms False (Seq (Grp (Rep Digit 6 (Some 12) True)) (Seq (Lit [dquote]) (Lit []))) cs
        = concat (map (\<lambda>(c1, r1). map (\<lambda>(c2, r2). (c1 @ c2, r2))
                          (ms False (Seq (Lit [dquote]) (Lit [])) r1))
                 (ms False (Grp (Rep Digit 6 (Some 12) True)) cs))"
    by (simp only: ms.simps(3))
  also have "\<dots> = concat (map ?f ?ks)"
    unfolding ms_Grp_Rep ms_Seq_Lit ms_Lit_Nil lit_rest_single map_map
    by (intro arg_cong [where f = concat] map_cong refl) simp
  also have "\<dots> = (if ?n \<in> set ?ks then ?f ?n else [])"
  proof (rule concat_map_single [OF _ rep_counts_distinct])
    fix k assume "k \<in> set ?ks" and "k \<noteq> ?n"
    then have lt: "k < ?n" by (simp add: rep_counts_set digit)
    then have "?run ! k \<in> set ?run" by simp
    then have "is_digit (?run ! k)" by (auto dest: set_takeWhileD)
    with lt have "is_digit (cs ! k)" by (simp add: takeWhile_nth)
    moreover from lt nle have "drop k cs = cs ! k # drop (Suc k) cs"
      by (simp add: Cons_nth_drop_Suc)
    ultimately show "?f k = []" using dquote_not_digit by auto
  qed
  finally show ?thesis
    using takeWhile_eq_take [of is_digit cs, symmetric]
    by (simp add: rep_counts_set digit Let_def)
qed

lemma ms_idRe:
  "ms False idRe s =
     (case s of [] \<Rightarrow> []
      | c # cs \<Rightarrow>
        (let run = takeWhile is_digit cs in
         if c = dquote \<and> 6 \<le> length run \<and> length run \<le> 12
            \<and> take 1 (drop (length run) cs) = [dquote]
         then [([run], drop (Suc (length run)) cs)] else []))"
proof (cases s)
  case Nil
  then show ?thesis by (simp add: idRe_def cat_def)
next
  case (Cons c cs)
  have "ms False idRe (c # cs) =
      (if c = dquote then ms False (Seq (Grp (Rep Digit 6 (Some 12) True)) (Seq (Lit [dquote]) (Lit []))) cs else [])"
    unfolding idRe_def cat_def foldr.simps o_apply ms_Seq_Lit lit_rest_single
    by simp
  then show ?thesis unfolding Cons by (simp add: ms_idRe_tail Let_def del: ms.simps)
qed

lemma line_ids_scan: "line_ids s = scan_quoted s"
proof (induction s rule: scan_quoted.induct)
  case 1
  show ?case by (simp add: line_ids.simps ms_idRe)
next
  case (2 c cs)
  let ?run = "takeWhile is_digit cs"
  show ?case
  proof (cases "c = dquote \<and> 6 \<le> length ?run \<and> length ?run \<le> 12
         \<and> take 1 (drop (length ?run) cs) = [dquote]")
    case True
    then have "regex_search False idRe (c # cs) = Some ([?run], drop (Suc (length ?run)) cs)"
      by (simp add: ms_idRe Let_def)
    then have "line_ids (c # cs) = ?run # line_ids (drop (Suc (length ?run)) cs)"
      by (simp add: line_ids.simps [of "c # cs"] grp_def)
    with True 2(1) [OF refl] show ?thesis by (simp add: Let_def)
  next
    case False
    then have "regex_search False idRe (c # cs) = regex_search False idRe cs"
      by (auto simp add: ms_idRe Let_def)
    then have "line_ids (c # cs) = line_ids cs"
      by (simp add: line_ids.simps [of "c # cs"] line_ids.simps [of cs])
    with False 2(2) [OF refl] show ?thesis by (auto simp: Let_def)
  qed
qed


lemma dedup_set: "set (dedup seen xs) = set xs - seen"
  by (induction xs arbitrary: seen) auto

lemma dedup_distinct: "distinct (dedup seen xs)"
  by (induction xs arbitrary: seen) (auto simp: dedup_set)

lemma contains_iff: "contains w s \<longleftrightarrow> (\<exists>p r. s = p @ w @ r)"
proof (induction s)
  case Nil
  show ?case by auto
next
  case (Cons x xs)
  show ?case
  proof
    assume "contains w (x # xs)"
    then consider "prefix w (x # xs)" | "contains w xs" by auto
    then show "\<exists>p r. x # xs = p @ w @ r"
    proof cases
      case 1
      then obtain r where "x # xs = w @ r" by (auto simp: prefix_def)
      then have "x # xs = [] @ w @ r" by simp
      then show ?thesis by blast
    next
      case 2
      with Cons.IH obtain p r where "xs = p @ w @ r" by auto
      then have "x # xs = (x # p) @ w @ r" by simp
      then show ?thesis by blast
    qed
  next
    assume "\<exists>p r. x # xs = p @ w @ r"
    then obtain p r where eq: "x # xs = p @ w @ r" by auto
    show "contains w (x # xs)"
    proof (cases p)
      case Nil
      with eq have "prefix w (x # xs)" by (simp add: prefix_def)
      then show ?thesis by simp
    next
      case (Cons y ys)
      with eq have "xs = ys @ w @ r" by simp
      with Cons.IH have "contains w xs" by blast
      then show ?thesis by simp
    qed
  qed
qed

lemma contains_append_left: "contains w s \<Longrightarrow> contains w (p @ s)"
  unfolding contains_iff by (metis append.assoc)

lemma scan_quoted_elem:
  "x \<in> set (scan_quoted s) \<Longrightarrow>
     list_all is_digit x \<and> 6 \<le> length x \<and> length x \<le> 12 \<and> contains (dquote # x @ [dquote]) s"
proof (induction s rule: scan_quoted.induct)
  case 1
  then show ?case by simp
next
  case (2 c cs)
  let ?run = "takeWhile is_digit cs"
  let ?m = "c = dquote \<and> 6 \<le> length ?run \<and> length ?run \<le> 12
         \<and> take 1 (drop (length ?run) cs) = [dquote]"
  show ?case
  proof (cases ?m)
    case True
    then have sc: "scan_quoted (c # cs) = ?run # scan_quoted (drop (Suc (length ?run)) cs)"
      by (simp add: Let_def)
    from True obtain r where dr: "drop (length ?run) cs = dquote # r"
      by (cases "drop (length ?run) cs") auto
    have "cs = take (length ?run) cs @ drop (length ?run) cs" by simp
    also have "take (length ?run) cs = ?run" by (rule takeWhile_eq_take [symmetric])
    finally have cs: "cs = ?run @ dquote # r" by (simp add: dr)
    from 2(3) sc consider "x = ?run" | "x \<in> set (scan_quoted (drop (Suc (length ?run)) cs))"
      by auto
    then show ?thesis
    proof cases
      case 1
      have "list_all is_digit ?run" by (auto simp: list_all_iff dest: set_takeWhileD)
      moreover from True cs have "c # cs = [] @ (dquote # ?run @ [dquote]) @ r" by simp
      then have "contains (dquote # ?run @ [dquote]) (c # cs)"
        unfolding contains_iff by blast
      ultimately show ?thesis using True 1 by simp
    next
      case 2
      with "2.IH"(1) [OF refl True] have ih: "list_all is_digit x \<and> 6 \<le> length x \<and> length x \<le> 12
          \<and> contains (dquote # x @ [dquote]) (drop (Suc (length ?run)) cs)"
        by simp
      from ih have "contains (dquote # x @ [dquote])
                      ((c # take (Suc (length ?run)) cs) @ drop (Suc (length ?run)) cs)"
        by (intro contains_append_left) simp
      then have "contains (dquote # x @ [dquote]) (c # cs)"
        by (simp only: append_Cons append_take_drop_id)
      with ih
      show ?thesis by simp
    qed
  next
    case False
    then have "scan_quoted (c # cs) = scan_quoted cs" by (auto simp: Let_def)
    with 2(3) "2.IH"(2) [OF refl False] have "list_all is_digit x \<and> 6 \<le> length x \<and> length x \<le> 12
          \<and> contains (dquote # x @ [dquote]) cs"
      by simp
    then show ?thesis by simp
  qed
qed

lemma parseIds_sample: "parseIds sample_input = [''490217825'']"
  by (simp add: parseIds_def sample_input_def getlines_def line_ids_scan dquote_def
      is_digit_def Let_def)

text \<open>
  Claim C7, as amended. For every input text, \<^verbatim>\<open>parseIds\<close> returns the runs of 6 to 12
  decimal digits enclosed in double quotes that a left-to-right scan of each line finds
  when every match consumes both of its quotes (a quote that closes one identifier does
  not open the next one); each identifier appears once, at the place of its first
  occurrence, the lines taken top to bottom. Every returned identifier consists of 6 to 12
  digits and stands between two double quotes in some line of the input.
\<close>

theorem parseIds_nonoverlapping_scan:
  "parseIds text = dedup {} (concat (map scan_quoted (getlines text)))
   \<and> distinct (parseIds text)
   \<and> (\<forall>x \<in> set (parseIds text).
        list_all is_digit x \<and> 6 \<le> length x \<and> length x \<le> 12
        \<and> (\<exists>l \<in> set (getlines text). contains (dquote # x @ [dquote]) l))"
proof (intro conjI ballI)
  show eq: "parseIds text = dedup {} (concat (map scan_quoted (getlines text)))"
    by (simp add: parseIds_def line_ids_scan cong: map_cong)
  show "distinct (parseIds text)" by (simp add: parseIds_def dedup_distinct)
  fix x assume "x \<in> set (parseIds text)"
  then obtain l where l: "l \<in> set (getlines text)" and x: "x \<in> set (scan_quoted l)"
    by (auto simp: eq dedup_set)
  from scan_quoted_elem [OF x] l
  show "list_all is_digit x" and "6 \<le> length x" and "length x \<le> 12"
    and "\<exists>l \<in> set (getlines text). contains (dquote # x @ [dquote]) l"
    by auto
qed

theorem parseIds_nonoverlapping_scan_witness:
  "parseIds sample_input = [''490217825''] \<and> distinct (parseIds sample_input)
   \<and> parseIds sample_input = dedup {} (concat (map scan_quoted (getlines sample_input)))"
proof -
  from parseIds_nonoverlapping_scan [of sample_input]
  have a: "parseIds sample_input = dedup {} (concat (map scan_quoted (getlines sample_input)))"
    and b: "distinct (parseIds sample_input)"
    by blast+
  from a b parseIds_sample show ?thesis by simp
qed

text \<open>
  The claim as the specification words it (every quoted run of 6 to 12 digits is
  returned) fails on \<^verbatim>\<open>"123456"789012"\<close>: the second run stands between two quotes, but
  its opening quote was consumed as the closing quote of the first match.
\<close>

theorem parseIds_adjacent_quotes_counterexample:
  "parseIds adjacent_input = [''123456'']
   \<and> dedup {} (concat (map spec_quoted_runs (getlines adjacent_input))) = [''123456'', ''789012'']
   \<and> parseIds adjacent_input \<noteq> dedup {} (concat (map spec_quoted_runs (getlines adjacent_input)))"
  by (simp add: parseIds_def adjacent_input_def getlines_def line_ids_scan dquote_def
      is_digit_def Let_def)

section \<open>Properties of the log classifier\<close>

lemma getlines_scenario3: "getlines scenario3_log = [scenario3_line1, scenario3_line2]"
  by (simp add: getlines_def scenario3_log_def scenario3_line1_def scenario3_line2_def)

lemma scenario3_line1_result:
  "regex_search False reResult scenario3_line1 = Some ([''999'', ''Failure''], [])"
  by code_simp

lemma scenario3_line2_no_result: "regex_search False reResult scenario3_line2 = None"
  by code_simp

lemma scenario3_line2_no_id: "regex_search True reValidation scenario3_line2 = None"
  by code_simp

lemma scenario3_line2_staged: "contains ''Staged file validation failed'' scenario3_line2"
  by code_simp

lemma init_items_eq: "init_items chunk = (\<lambda>i. if i \<in> set chunk then Some Unknown else None)"
proof -
  have "foldl (\<lambda>m ident. m(ident \<mapsto> Unknown)) m0 chunk
        = (\<lambda>i. if i \<in> set chunk then Some Unknown else m0 i)" for m0 :: "string \<rightharpoonup> SkinResult"
    by (induction chunk arbitrary: m0) (auto simp: fun_eq_iff)
  then show ?thesis by (simp add: init_items_def)
qed

lemma parse_line_staged:
  assumes "regex_search False reResult line = None"
      and "regex_search True reValidation line = None"
      and "contains ''Staged file validation failed'' line \<or> contains ''Missing update files'' line"
  shows "parse_line (r, lastId) line =
           (upgrade_last (r\<lparr>globalValidationFail := True\<rparr>) lastId ValidationFailed, lastId)"
  using assms by (simp add: parse_line_def)

lemma on_result_failure:
  "on_result r ident ''Failure'' =
     set_item (r\<lparr>log_failureCount := log_failureCount r + 1\<rparr>) ident Error"
  by (simp add: on_result_def)

lemma parse_scenario3_line1:
  "parse_line (r, l) scenario3_line1 =
     (set_item (r\<lparr>log_failureCount := log_failureCount r + 1\<rparr>) ''999'' Error, ''999'')"
  by (simp add: parse_line_def scenario3_line1_result grp_def on_result_failure)

lemma parse_scenario3:
  "parseSteamCmdLog (Some scenario3_log) chunk =
     empty_log\<lparr>perItem := (\<lambda>i. if i = ''999'' \<and> i \<in> set chunk then Some ValidationFailed
                               else if i \<in> set chunk then Some Unknown else None),
                globalValidationFail := True, log_failureCount := 1\<rparr>"
  by (auto simp add: parseSteamCmdLog_def getlines_scenario3 parse_scenario3_line1
      parse_line_staged [OF scenario3_line2_no_result scenario3_line2_no_id
        disjI1 [OF scenario3_line2_staged]]
      set_item_def upgrade_last_def init_items_eq empty_log_def fun_eq_iff)

text \<open>
  Claim C6. A line that is not a \<^verbatim>\<open>result :\<close> line, carries no item identifier for the
  validation pattern, and contains \<^verbatim>\<open>Staged file validation failed\<close> or
  \<^verbatim>\<open>Missing update files\<close> sets the validation-failure flag; the last identifier seen is
  upgraded to \<open>ValidationFailed\<close> when its outcome is \<open>Error\<close> or \<open>Unknown\<close>, and nothing
  else changes. For a chunk that contains 999, the two-line log of the scenario gives 999
  the outcome \<open>ValidationFailed\<close> with the flag set; for the chunk of 999 alone the map is
  exactly \<open>{999: ValidationFailed}\<close>.
\<close>

theorem validation_failure_without_id:
  "(regex_search False reResult line = None \<longrightarrow>
    regex_search True reValidation line = None \<longrightarrow>
    contains ''Staged file validation failed'' line \<or> contains ''Missing update files'' line \<longrightarrow>
    parse_line (r, lastId) line =
      (r\<lparr>globalValidationFail := True,
         perItem := (if lastId \<noteq> [] \<and> (perItem r lastId = Some Error \<or> perItem r lastId = Some Unknown)
                     then (perItem r)(lastId \<mapsto> ValidationFailed) else perItem r)\<rparr>,
       lastId))
   \<and> (''999'' \<in> set chunk \<longrightarrow>
        perItem (parseSteamCmdLog (Some scenario3_log) chunk) ''999'' = Some ValidationFailed
        \<and> globalValidationFail (parseSteamCmdLog (Some scenario3_log) chunk))
   \<and> perItem (parseSteamCmdLog (Some scenario3_log) [''999'']) = [''999'' \<mapsto> ValidationFailed]
   \<and> globalValidationFail (parseSteamCmdLog (Some scenario3_log) [''999''])"
proof (intro conjI impI)
  assume "regex_search False reResult line = None"
    and "regex_search True reValidation line = None"
    and "contains ''Staged file validation failed'' line \<or> contains ''Missing update files'' line"
  then show "parse_line (r, lastId) line =
      (r\<lparr>globalValidationFail := True,
         perItem := (if lastId \<noteq> [] \<and> (perItem r lastId = Some Error \<or> perItem r lastId = Some Unknown)
                     then (perItem r)(lastId \<mapsto> ValidationFailed) else perItem r)\<rparr>,
       lastId)"
    by (auto simp: parse_line_staged upgrade_last_def)
next
  assume "''999'' \<in> set chunk"
  then show "perItem (parseSteamCmdLog (Some scenario3_log) chunk) ''999'' = Some ValidationFailed"
    by (simp add: parse_scenario3)
next
  show "globalValidationFail (parseSteamCmdLog (Some scenario3_log) chunk)"
    by (simp add: parse_scenario3)
next
  show "perItem (parseSteamCmdLog (Some scenario3_log) [''999'']) = [''999'' \<mapsto> ValidationFailed]"
    by (auto simp: parse_scenario3 fun_eq_iff)
next
  show "globalValidationFail (parseSteamCmdLog (Some scenario3_log) [''999''])"
    by (simp add: parse_scenario3)
qed

theorem validation_failure_without_id_witness:
  "parse_line (empty_log\<lparr>perItem := [''999'' \<mapsto> Error]\<rparr>, ''999'') scenario3_line2 =
     (empty_log\<lparr>globalValidationFail := True, perItem := [''999'' \<mapsto> ValidationFailed]\<rparr>, ''999'')
   \<and> perItem (parseSteamCmdLog (Some scenario3_log) [''999'', ''1000'']) ''999''
       = Some ValidationFailed"
proof -
  note inst = validation_failure_without_id
    [of scenario3_line2 "empty_log\<lparr>perItem := [''999'' \<mapsto> Error]\<rparr>" "''999''"
        "[''999'', ''1000'']"]
  from inst scenario3_line2_no_result scenario3_line2_no_id scenario3_line2_staged
  have "parse_line (empty_log\<lparr>perItem := [''999'' \<mapsto> Error]\<rparr>, ''999'') scenario3_line2 =
     (empty_log\<lparr>globalValidationFail := True, perItem := [''999'' \<mapsto> ValidationFailed]\<rparr>, ''999'')"
    by simp
  moreover from inst
  have "perItem (parseSteamCmdLog (Some scenario3_log) [''999'', ''1000'']) ''999''
       = Some ValidationFailed"
    by simp
  ultimately show ?thesis by simp
qed

section \<open>Properties of the file system operations\<close>

lemma diverge_Cons: "diverge (x # xs) (y # ys) = (x \<noteq> y \<or> diverge xs ys)"
  by (auto simp: diverge_def)

lemma diverge_Nil [simp]: "\<not> diverge [] q" "\<not> diverge p []"
  by (simp_all add: diverge_def)

lemma diverge_sym: "diverge p q \<Longrightarrow> diverge q p"
  by (simp add: diverge_def)

lemma diverge_append_left: "diverge p q \<Longrightarrow> diverge (p @ r) q"
  by (auto simp: diverge_def prefix_append dest: append_prefixD)

lemma diverge_hd: "p \<noteq> [] \<Longrightarrow> q \<noteq> [] \<Longrightarrow> hd p \<noteq> hd q \<Longrightarrow> diverge p q"
  by (cases p; cases q) (auto simp: diverge_Cons)

lemma diverge_siblings: "x \<noteq> y \<Longrightarrow> diverge (p @ [x]) (p @ [y])"
  by (simp add: diverge_def)

lemma map_of_update_other: "k \<noteq> x \<Longrightarrow> map_of (AList.update x v cs) k = map_of cs k"
  by (simp add: update_conv')

lemma map_of_delete_other: "k \<noteq> x \<Longrightarrow> map_of (AList.delete x cs) k = map_of cs k"
  by (simp add: delete_conv')

lemma lookup_update_at_diverge:
  "diverge p q \<Longrightarrow> lookup (update_at p v t) q = lookup t q"
proof (induction p v t arbitrary: q rule: update_at.induct)
  case (1 v t)
  then show ?case by simp
next
  case (2 x xs v s)
  then show ?case by simp
next
  case (3 x v cs)
  then obtain y ys where q: "q = y # ys" and ne: "x \<noteq> y"
    by (cases q) (auto simp: diverge_Cons)
  then show ?case
    by (cases v) (simp_all add: update_conv' delete_conv')
next
  case (4 x y ys v cs)
  then obtain z zs where q: "q = z # zs" by (cases q) auto
  show ?case
  proof (cases "map_of cs x")
    case None
    then show ?thesis by simp
  next
    case (Some c)
    show ?thesis
    proof (cases "z = x")
      case True
      with 4(2) q have "diverge (y # ys) zs" by (simp add: diverge_Cons)
      from 4(1) [OF Some this] Some True q show ?thesis
        by (simp add: update_conv')
    next
      case False
      with Some q show ?thesis by (simp add: update_conv')
    qed
  qed
qed

lemma lookup_update_at_None_same: "p \<noteq> [] \<Longrightarrow> lookup (update_at p None t) p = None"
proof (induction p "None :: node option" t rule: update_at.induct)
  case (4 x y ys cs)
  then show ?case by (cases "map_of cs x") (simp_all add: update_conv')
qed (simp_all add: delete_conv')

lemma mkdirs_frame:
  "mkdirs p t = Some t' \<Longrightarrow> \<not> prefix q p \<Longrightarrow> lookup t' q = lookup t q"
proof (induction p t arbitrary: q t' rule: mkdirs.induct)
  case (1 t)
  then show ?case by (cases t) auto
next
  case (2 x xs s)
  then show ?case by simp
next
  case (3 x xs cs)
  from 3(3) obtain z zs where q: "q = z # zs" by (cases q) auto
  let ?c = "case map_of cs x of None \<Rightarrow> Dir [] | Some c \<Rightarrow> c"
  from 3(2) obtain c' where m: "mkdirs xs ?c = Some c'" and t': "t' = Dir (AList.update x c' cs)"
    by (auto split: option.splits)
  show ?case
  proof (cases "z = x")
    case False
    with q t' show ?thesis by (simp add: update_conv')
  next
    case True
    with 3(3) q have np: "\<not> prefix zs xs" by simp
    have "lookup c' zs = lookup ?c zs"
      by (rule 3(1) [OF m np])
    moreover from np have "zs \<noteq> []" by auto
    then have "lookup (Dir []) zs = None" by (cases zs) auto
    ultimately show ?thesis using q t' True
      by (cases "map_of cs x") (auto simp: update_conv')
  qed
qed

lemma diverge_prefix_left: "prefix d p \<Longrightarrow> diverge d q \<Longrightarrow> diverge p q"
  by (auto simp: prefix_def diverge_append_left)

lemma folderHasFiles_lookup:
  "lookup t' q = lookup t q \<Longrightarrow> folderHasFiles f t' q = folderHasFiles f t q"
  by (simp add: folderHasFiles_def)

lemma create_directories_frame:
  "create_directories f p t = Some t' \<Longrightarrow> \<not> prefix q p \<Longrightarrow> lookup t' q = lookup t q"
  by (auto simp: create_directories_def split: if_splits dest: mkdirs_frame)

lemma rename_result:
  assumes "rename f src dst t = Some t'"
  shows "t' = t \<and> src = dst \<or>
         (src \<noteq> [] \<and> src \<noteq> dst \<and> (\<exists>n. t' = update_at dst (Some n) (update_at src None t)))"
  using assms
  by (auto simp: rename_def split: if_splits option.splits node.splits list.splits prod.splits)

lemma rename_frame:
  assumes "rename f src dst t = Some t'" and "diverge src q" and "diverge dst q"
  shows "lookup t' q = lookup t q"
  using rename_result [OF assms(1)] assms(2,3)
  by (auto simp: lookup_update_at_diverge)

lemma rename_src_gone:
  assumes "rename f src dst t = Some t'" and "diverge dst src"
  shows "lookup t' src = None"
proof -
  from assms(2) have "src \<noteq> dst" by (auto simp: diverge_def)
  with rename_result [OF assms(1)] obtain n where "src \<noteq> []"
    and "t' = update_at dst (Some n) (update_at src None t)" by auto
  with assms(2) show ?thesis
    by (simp add: lookup_update_at_diverge lookup_update_at_None_same)
qed

lemma write_file_frame:
  "write_file t p s = Some t' \<Longrightarrow> diverge p q \<Longrightarrow> lookup t' q = lookup t q"
  by (auto simp: write_file_def lookup_update_at_diverge split: option.splits node.splits if_splits)

lemma write_obj_frame:
  assumes "write_obj t ob = Some t'" and "prefix d (fst ob)" and "diverge d q"
  shows "lookup t' q = lookup t q"
proof -
  obtain p k where ob: "ob = (p, k)" by (cases ob)
  from assms(2,3) ob have dp: "diverge p q" by (auto intro: diverge_prefix_left)
  then have dp': "diverge (p @ [last p]) q" by (rule diverge_append_left)
  from assms(1) ob dp dp' show ?thesis
    by (auto simp: write_obj_def lookup_update_at_diverge
        split: option.splits node.splits if_splits dest: write_file_frame)
qed

lemma copy_objs_frame:
  assumes "\<And>ob. ob \<in> set obs \<Longrightarrow> prefix d (fst ob)" and "diverge d q"
  shows "lookup (fst (copy_objs t obs lim)) q = lookup t q"
  using assms(1)
proof (induction obs arbitrary: t lim)
  case Nil
  show ?case by simp
next
  case (Cons ob obs)
  show ?case
  proof (cases "lim = Some 0 \<or> write_obj t ob = None")
    case True
    then show ?thesis by auto
  next
    case False
    then obtain t1 where w: "write_obj t ob = Some t1" and l: "lim \<noteq> Some 0" by auto
    have "lookup t1 q = lookup t q"
      by (rule write_obj_frame [OF w _ assms(2)]) (simp add: Cons.prems)
    moreover have "lookup (fst (copy_objs t1 obs (map_option (\<lambda>k. k - 1) lim))) q = lookup t1 q"
      by (rule Cons.IH) (simp add: Cons.prems)
    ultimately show ?thesis using w l by simp
  qed
qed

lemma copy_frame:
  assumes "diverge dst q"
  shows "lookup (fst (copy f src dst t)) q = lookup t q"
proof (cases "lookup t src")
  case None
  then show ?thesis by (simp add: copy_def)
next
  case (Some n)
  have "lookup (fst (copy_objs t (map (\<lambda>(rel, k). (dst @ rel, k)) (flatten [] n))
                      (copy_limit f src dst))) q = lookup t q"
    by (rule copy_objs_frame [OF _ assms]) auto
  with Some show ?thesis by (simp add: copy_def)
qed

lemma remove_all_frame:
  "remove_all f p t = Some t' \<Longrightarrow> diverge p q \<Longrightarrow> lookup t' q = lookup t q"
  by (auto simp: remove_all_def lookup_update_at_diverge split: if_splits)

lemma remove_frame:
  "remove f p t = Some t' \<Longrightarrow> diverge p q \<Longrightarrow> lookup t' q = lookup t q"
  by (auto simp: remove_def lookup_update_at_diverge split: if_splits option.splits node.splits list.splits)

lemma remove_all_gone: "remove_all f p t = Some t' \<Longrightarrow> p \<noteq> [] \<Longrightarrow> lookup t' p = None"
  by (auto simp: remove_all_def lookup_update_at_None_same split: if_splits)

text \<open>The ways a call of \<^verbatim>\<open>moveSkinToShared\<close> can go.\<close>

lemma moveSkinToShared_cases:
  assumes "moveSkinToShared f d ident t = (b, t')"
  obtains
    (present) "folderHasFiles f t (skin_dst ident)" "b" "t' = t"
  | (nothing) "\<not> folderHasFiles f t (skin_dst ident)" "\<not> folderHasFiles f t (skin_src d ident)"
      "\<not> b" "t' = t"
  | (renamed) t1 where "\<not> folderHasFiles f t (skin_dst ident)"
      "create_directories f (butlast (skin_dst ident)) t = Some t1"
      "rename f (skin_src d ident) (skin_dst ident) t1 = Some t'"
      "b = folderHasFiles f t' (skin_dst ident)"
  | (copied) t1 t3 where "\<not> folderHasFiles f t (skin_dst ident)"
      "t1 = t \<or> create_directories f (butlast (skin_dst ident)) t = Some t1"
      "copy f (skin_src d ident) (skin_dst ident) t1 = (t3, True)"
      "remove_all f (skin_src d ident) t3 = Some t'"
      "b = folderHasFiles f t' (skin_dst ident)"
  | (failed) t1 where "\<not> folderHasFiles f t (skin_dst ident)" "\<not> b"
      "t1 = t \<or> create_directories f (butlast (skin_dst ident)) t = Some t1"
      "t' = fst (copy f (skin_src d ident) (skin_dst ident) t1)"
proof -
  let ?src = "skin_src d ident" and ?dst = "skin_dst ident"
  show thesis
  proof (cases "folderHasFiles f t ?dst")
    case True
    with assms have "b" "t' = t" by (simp_all add: moveSkinToShared_def Let_def)
    with True show ?thesis by (rule present)
  next
    case nd: False
    show ?thesis
    proof (cases "folderHasFiles f t ?src")
      case False
      with nd assms have "\<not> b" "t' = t" by (simp_all add: moveSkinToShared_def Let_def)
      with nd False show ?thesis by (rule nothing)
    next
      case hs: True
      define tb where "tb = (case create_directories f (butlast ?dst) t of
                 None \<Rightarrow> Inl t
               | Some t1 \<Rightarrow> (case rename f ?src ?dst t1 of None \<Rightarrow> Inl t1 | Some t2 \<Rightarrow> Inr t2))"
      from assms nd hs have res: "(b, t') = (case tb of
           Inr t2 \<Rightarrow> (folderHasFiles f t2 ?dst, t2)
         | Inl t1 \<Rightarrow>
             (case copy f ?src ?dst t1 of
                (t3, False) \<Rightarrow> (False, t3)
              | (t3, True) \<Rightarrow>
                  (case remove_all f ?src t3 of
                     None \<Rightarrow> (False, t3)
                   | Some t4 \<Rightarrow> (folderHasFiles f t4 ?dst, t4))))"
        by (simp add: moveSkinToShared_def Let_def tb_def)
      show ?thesis
      proof (cases tb)
        case (Inr t2)
        then obtain t1 where cd: "create_directories f (butlast ?dst) t = Some t1"
          and rn: "rename f ?src ?dst t1 = Some t2"
          by (auto simp: tb_def split: option.splits)
        from res Inr have eq: "t2 = t'" and b: "b = folderHasFiles f t' ?dst" by simp_all
        from nd cd rn [unfolded eq] b show ?thesis by (rule renamed)
      next
        case (Inl t1)
        then have t1: "t1 = t \<or> create_directories f (butlast ?dst) t = Some t1"
          by (auto simp: tb_def split: option.splits)
        obtain t3 ok where c: "copy f ?src ?dst t1 = (t3, ok)" by (cases "copy f ?src ?dst t1")
        show ?thesis
        proof (cases "ok \<and> remove_all f ?src t3 \<noteq> None")
          case True
          then obtain t4 where r: "remove_all f ?src t3 = Some t4" and ok by auto
          with res Inl c have eq: "t4 = t'" and b: "b = folderHasFiles f t' ?dst" by simp_all
          from c \<open>ok\<close> have c': "copy f ?src ?dst t1 = (t3, True)" by simp
          from nd t1 c' r [unfolded eq] b show ?thesis by (rule copied)
        next
          case False
          with res Inl c have eq: "t' = t3" and b: "\<not> b" by (auto split: bool.splits)
          from eq c have "t' = fst (copy f ?src ?dst t1)" by simp
          with nd b t1 show ?thesis by (rule failed)
        qed
      qed
    qed
  qed
qed

lemma moveSkinToShared_true:
  "moveSkinToShared f d ident t = (True, t') \<Longrightarrow> folderHasFiles f t' (skin_dst ident)"
  by (erule moveSkinToShared_cases) simp_all

lemma skin_dst_parent: "butlast (skin_dst ident) = CONTENT_PATH"
  by (simp add: skin_dst_def)

lemma moveSkinToShared_frame:
  assumes "diverge (skin_src d ident) q" and "diverge (skin_dst ident) q"
    and "\<not> prefix q CONTENT_PATH"
  shows "lookup (snd (moveSkinToShared f d ident t)) q = lookup t q"
proof -
  obtain b t' where m: "moveSkinToShared f d ident t = (b, t')"
    by (cases "moveSkinToShared f d ident t")
  have cd: "lookup t1 q = lookup t q"
    if "t1 = t \<or> create_directories f (butlast (skin_dst ident)) t = Some t1" for t1
    using that assms(3) by (auto simp: skin_dst_parent dest: create_directories_frame)
  from m have "lookup t' q = lookup t q"
  proof (cases rule: moveSkinToShared_cases)
    case (renamed t1)
    with cd [of t1] rename_frame [OF renamed(3) assms(1,2)] show ?thesis by simp
  next
    case (copied t1 t3)
    from copy_frame [OF assms(2), of f "skin_src d ident" t1] copied(3)
    have "lookup t3 q = lookup t1 q" by simp
    with cd [OF copied(2)] remove_all_frame [OF copied(4) assms(1)] show ?thesis by simp
  next
    case (failed t1)
    with cd [OF failed(3)] copy_frame [OF assms(2), of f "skin_src d ident" t1]
    show ?thesis by simp
  qed simp_all
  with m show ?thesis by simp
qed

lemma moveSkinToShared_source_gone:
  assumes "moveSkinToShared f d ident t = (True, t')"
    and "\<not> folderHasFiles f t (skin_dst ident)"
    and "diverge (skin_dst ident) (skin_src d ident)"
  shows "lookup t' (skin_src d ident) = None"
  using assms(1)
proof (cases rule: moveSkinToShared_cases)
  case present
  with assms(2) show ?thesis by simp
next
  case (renamed t1)
  from rename_src_gone [OF renamed(3) assms(3)] show ?thesis .
next
  case (copied t1 t3)
  from remove_all_gone [OF copied(4)] show ?thesis by (simp add: skin_src_def)
qed simp_all

section \<open>Properties of the instance worker\<close>

lemma remove_each_frame:
  "(\<And>x. x \<in> set qs \<Longrightarrow> diverge x q) \<Longrightarrow> lookup (remove_each f qs t) q = lookup t q"
proof (induction qs arbitrary: t)
  case Nil
  show ?case by simp
next
  case (Cons x qs)
  show ?case
  proof (cases "remove_all f x t")
    case None
    then show ?thesis by simp
  next
    case (Some t1)
    from remove_all_frame [OF Some] Cons.prems have "lookup t1 q = lookup t q" by simp
    moreover have "lookup (remove_each f qs t1) q = lookup t1 q"
      by (rule Cons.IH) (simp add: Cons.prems)
    ultimately show ?thesis using Some by simp
  qed
qed

lemma clean_dir_frame:
  assumes "diverge p q"
  shows "lookup (clean_dir f p t) q = lookup t q"
proof -
  have re: "lookup (remove_each f (map (\<lambda>e. p @ [fst e]) cs) t) q = lookup t q" for cs
    by (rule remove_each_frame) (auto intro: diverge_append_left [OF assms])
  show ?thesis
    unfolding clean_dir_def by (auto split: option.splits node.splits intro: re)
qed

lemma skin_dst_not_root: "diverge (''/'' # p) (skin_dst ident)"
  by (simp add: skin_dst_def CONTENT_PATH_def SHARED_DIR_def diverge_Cons)

lemma cleanStagingFolder_frame:
  "lookup (cleanStagingFolder f d t) (skin_dst ident) = lookup t (skin_dst ident)"
  by (simp add: cleanStagingFolder_def stagingSubdirs_def path_join_def clean_dir_frame
      skin_dst_not_root)

lemma skin_src_dst_diverge: "diverge (skin_src (inst_dir i) x) (skin_dst y)"
  by (simp add: skin_src_def skin_dst_def inst_dir_def INSTANCES_ROOT_def CONTENT_PATH_def
      SHARED_DIR_def diverge_Cons)

lemma skin_dst_diverge: "x \<noteq> y \<Longrightarrow> diverge (skin_dst x) (skin_dst y)"
  by (simp add: skin_dst_def diverge_siblings)

lemma skin_dst_not_prefix: "\<not> prefix (skin_dst y) CONTENT_PATH"
  by (simp add: skin_dst_def)

lemma move_other_frame:
  "x \<noteq> y \<Longrightarrow>
   lookup (snd (moveSkinToShared f (inst_dir i) x t)) (skin_dst y) = lookup t (skin_dst y)"
  by (rule moveSkinToShared_frame)
     (simp_all add: skin_src_dst_diverge skin_dst_diverge skin_dst_not_prefix)

lemma count_outcome_result:
  "snd (count_outcome s sr) = (if sr \<in> {Success, Timeout, RateLimit, LockFailed, ValidationFailed}
                               then sr else Error)"
  by (cases sr) (simp_all add: count_outcome_def)

lemma count_outcome_fields:
  "fs (fst (count_outcome s sr)) = fs s"
  "skinResults (fst (count_outcome s sr)) = skinResults s"
  "pass_log (fst (count_outcome s sr)) = pass_log s"
  by (cases sr; simp add: count_outcome_def)+

lemma reconcile_one_fs:
  "fs (reconcile_one f d parsed timedOut s x) = snd (moveSkinToShared f d x (fs s))"
  by (simp add: reconcile_one_def Let_def case_prod_beta count_outcome_fields)

lemma reconcile_one_results:
  "skinResults (reconcile_one f d parsed timedOut s x) =
     (skinResults s)(x \<mapsto>
        snd (count_outcome (s\<lparr>fs := snd (moveSkinToShared f d x (fs s))\<rparr>)
          (reconciled parsed timedOut x (fst (moveSkinToShared f d x (fs s)))
             (folderHasFiles f (snd (moveSkinToShared f d x (fs s))) (skin_dst x)))))"
  by (simp add: reconcile_one_def Let_def case_prod_beta count_outcome_fields)

lemma reconcile_one_pass_log:
  "pass_log (reconcile_one f d parsed timedOut s x) = pass_log s"
  by (simp add: reconcile_one_def Let_def case_prod_beta count_outcome_fields)

lemma reconciled_success:
  "(reconciled parsed timedOut x moved inShared = Success) = (moved \<or> inShared)"
  by (auto simp: reconciled_def Let_def)

lemma reconcile_one_success:
  "(skinResults (reconcile_one f d parsed timedOut s x) x = Some Success)
     = folderHasFiles f (fs (reconcile_one f d parsed timedOut s x)) (skin_dst x)"
proof -
  obtain b t' where m: "moveSkinToShared f d x (fs s) = (b, t')"
    by (cases "moveSkinToShared f d x (fs s)")
  have "b \<Longrightarrow> folderHasFiles f t' (skin_dst x)"
    using m by (auto dest: moveSkinToShared_true)
  then show ?thesis
    by (auto simp: reconcile_one_results reconcile_one_fs m count_outcome_result
        reconciled_success)
qed

lemma reconcile_one_not_unknown:
  "skinResults (reconcile_one f d parsed timedOut s x) x \<noteq> Some Unknown"
  "skinResults (reconcile_one f d parsed timedOut s x) x \<noteq> None"
  by (simp_all add: reconcile_one_results count_outcome_result)

lemma reconcile_one_other:
  "y \<noteq> x \<Longrightarrow> skinResults (reconcile_one f d parsed timedOut s x) y = skinResults s y"
  by (simp add: reconcile_one_results)

lemma reconcile_snoc:
  "reconcile f d parsed timedOut s (xs @ [x]) =
     reconcile_one f d parsed timedOut (reconcile f d parsed timedOut s xs) x"
  by (simp add: reconcile_def)

lemma reconcile_success:
  "y \<in> set chunk \<Longrightarrow>
   (skinResults (reconcile f (inst_dir i) parsed timedOut s chunk) y = Some Success)
     = folderHasFiles f (fs (reconcile f (inst_dir i) parsed timedOut s chunk)) (skin_dst y)"
proof (induction chunk rule: rev_induct)
  case Nil
  then show ?case by simp
next
  case (snoc x xs)
  let ?s = "reconcile f (inst_dir i) parsed timedOut s xs"
  show ?case
  proof (cases "y = x")
    case True
    then show ?thesis by (simp add: reconcile_snoc reconcile_one_success)
  next
    case False
    with snoc.prems have "y \<in> set xs" by simp
    from snoc.IH [OF this] False show ?thesis
      by (simp add: reconcile_snoc reconcile_one_other reconcile_one_fs
          folderHasFiles_lookup [OF move_other_frame])
  qed
qed

lemma reconcile_recorded:
  "y \<in> set chunk \<Longrightarrow>
   skinResults (reconcile f d parsed timedOut s chunk) y \<noteq> Some Unknown
   \<and> skinResults (reconcile f d parsed timedOut s chunk) y \<noteq> None"
proof (induction chunk rule: rev_induct)
  case Nil
  then show ?case by simp
next
  case (snoc x xs)
  then show ?case
    by (cases "y = x") (simp_all add: reconcile_snoc reconcile_one_not_unknown reconcile_one_other)
qed

lemma reconcile_unknown_kept:
  "skinResults (reconcile f d parsed timedOut s chunk) y = Some Unknown \<Longrightarrow>
   skinResults s y = Some Unknown"
proof (induction chunk rule: rev_induct)
  case Nil
  then show ?case by (simp add: reconcile_def)
next
  case (snoc x xs)
  then show ?case
    by (cases "y = x") (simp_all add: reconcile_snoc reconcile_one_not_unknown reconcile_one_other)
qed

lemma reconcile_pass_log: "pass_log (reconcile f d parsed timedOut s chunk) = pass_log s"
  by (induction chunk rule: rev_induct) (simp_all add: reconcile_snoc reconcile_one_pass_log, simp add: reconcile_def)

lemma worker_early_return:
  "\<not> script_opens e s i \<Longrightarrow> skinResults (workerInstance e s chunk i g p) = skinResults s"
  by (simp add: workerInstance_def Let_def)

lemma worker_reconciles:
  assumes "chunk \<noteq> []" and "script_opens e s i"
  shows "\<exists>parsed timedOut s1. skinResults s1 = skinResults s \<and> pass_log s1 = pass_log s \<and>
           workerInstance e s chunk i g p =
             (reconcile (faults_of e) (inst_dir i) parsed timedOut s1 chunk)
               \<lparr>fs := cleanStagingFolder (faults_of e) (inst_dir i)
                        (fs (reconcile (faults_of e) (inst_dir i) parsed timedOut s1 chunk))\<rparr>"
proof (intro exI conjI)
  let ?run = "run_tool e s chunk i p"
  let ?s1 = "after_tool e s chunk i ?run"
  show "skinResults ?s1 = skinResults s" "pass_log ?s1 = pass_log s"
    by (simp_all add: after_tool_def)
  from assms show "workerInstance e s chunk i g p =
     (reconcile (faults_of e) (inst_dir i) (parseSteamCmdLog (log_text ?run) chunk) (timed_out ?run) ?s1 chunk)
        \<lparr>fs := cleanStagingFolder (faults_of e) (inst_dir i)
             (fs (reconcile (faults_of e) (inst_dir i) (parseSteamCmdLog (log_text ?run) chunk) (timed_out ?run) ?s1 chunk))\<rparr>"
    by (simp add: workerInstance_def Let_def)
qed

lemma worker_pass_log: "pass_log (workerInstance e s chunk i g p) = pass_log s"
proof (cases "chunk \<noteq> [] \<and> script_opens e s i")
  case True
  with worker_reconciles [of chunk e s i g p] show ?thesis
    by (auto simp: reconcile_pass_log)
next
  case False
  then show ?thesis by (auto simp: workerInstance_def Let_def)
qed

text \<open>
  Claim C1. When a worker has completed its chunk (it wrote its script and went through
  the reconcile loop and the final cleaning), every identifier of the chunk has the
  outcome \<open>Success\<close> in the outcome map if and only if its directory in the shared tree,
  \<^verbatim>\<open>rust_workshop/steamapps/workshop/content/252490/<id>\<close>, has files:
  \<^verbatim>\<open>folderHasFiles\<close> holds of it in the file system the worker leaves.
\<close>

theorem worker_success_iff_shared_files:
  assumes "script_opens e s i" and "y \<in> set chunk"
  shows "(skinResults (workerInstance e s chunk i g p) y = Some Success)
           = folderHasFiles (faults_of e) (fs (workerInstance e s chunk i g p)) (skin_dst y)"
proof -
  from assms(2) have "chunk \<noteq> []" by auto
  from worker_reconciles [OF this assms(1), of g p] obtain parsed timedOut s1 where
    w: "workerInstance e s chunk i g p =
             (reconcile (faults_of e) (inst_dir i) parsed timedOut s1 chunk)
               \<lparr>fs := cleanStagingFolder (faults_of e) (inst_dir i)
                        (fs (reconcile (faults_of e) (inst_dir i) parsed timedOut s1 chunk))\<rparr>"
    by blast
  show ?thesis
    unfolding w
    by (simp add: reconcile_success [OF assms(2)] folderHasFiles_lookup [OF cleanStagingFolder_frame])
qed

theorem worker_success_iff_shared_files_witness:
  "script_opens env_download (initial_state start_tree) 0
   \<and> skinResults (workerInstance env_download (initial_state start_tree) [''490217825''] 0 1 1)
        ''490217825'' = Some Success
   \<and> folderHasFiles (faults_of env_download)
        (fs (workerInstance env_download (initial_state start_tree) [''490217825''] 0 1 1))
        (skin_dst ''490217825'')"
proof -
  have o: "script_opens env_download (initial_state start_tree) 0" by code_simp
  have r: "skinResults (workerInstance env_download (initial_state start_tree) [''490217825''] 0 1 1)
        ''490217825'' = Some Success" by code_simp
  from worker_success_iff_shared_files [OF o, of "''490217825''" "[''490217825'']" 1 1] o r
  show ?thesis by simp
qed

text \<open>
  What a worker that reaches its reconcile loop stores. It never stores \<open>Unknown\<close>: an
  entry that reads \<open>Unknown\<close> after the worker read so before it. The outcome of every
  identifier of the chunk is determined by the classified log, the hard timeout and the
  shared folder; an identifier that the log does not classify, without files at the
  shared destination and without a timeout, is stored as \<open>Error\<close>; and the error and
  failed counters grow by the number of identifiers stored as \<open>Error\<close> and stored with
  an outcome other than \<open>Success\<close>.
\<close>

lemma reconciled_or:
  "reconciled parsed timedOut x moved inShared = reconciled parsed timedOut x False (moved \<or> inShared)"
  by (simp add: reconciled_def)

lemma count_outcome_any: "snd (count_outcome s sr) = snd (count_outcome s0 sr)"
  by (simp add: count_outcome_result)

lemma reconcile_one_outcome:
  "skinResults (reconcile_one f d parsed timedOut s x) x =
     Some (snd (count_outcome s0 (reconciled parsed timedOut x False
             (folderHasFiles f (fs (reconcile_one f d parsed timedOut s x)) (skin_dst x)))))"
proof -
  obtain b t' where m: "moveSkinToShared f d x (fs s) = (b, t')"
    by (cases "moveSkinToShared f d x (fs s)")
  have "b \<Longrightarrow> folderHasFiles f t' (skin_dst x)"
    using m by (auto dest: moveSkinToShared_true)
  then have "(b \<or> folderHasFiles f t' (skin_dst x)) = folderHasFiles f t' (skin_dst x)" by blast
  then show ?thesis
    by (simp add: reconcile_one_results reconcile_one_fs m count_outcome_result
        reconciled_or [of parsed timedOut x b])
qed

lemma reconcile_outcome:
  "y \<in> set chunk \<Longrightarrow>
   skinResults (reconcile f (inst_dir i) parsed timedOut s chunk) y =
     Some (snd (count_outcome s0 (reconciled parsed timedOut y False
             (folderHasFiles f (fs (reconcile f (inst_dir i) parsed timedOut s chunk)) (skin_dst y)))))"
proof (induction chunk rule: rev_induct)
  case Nil
  then show ?case by simp
next
  case (snoc x xs)
  show ?case
  proof (cases "y = x")
    case True
    then show ?thesis by (simp add: reconcile_snoc reconcile_one_outcome [where ?s0.0 = s0])
  next
    case False
    with snoc.prems have "y \<in> set xs" by simp
    from snoc.IH [OF this] False show ?thesis
      by (simp add: reconcile_snoc reconcile_one_other reconcile_one_fs
          folderHasFiles_lookup [OF move_other_frame])
  qed
qed

lemma worker_unfold:
  assumes "chunk \<noteq> []" and "script_opens e s i"
  shows "workerInstance e s chunk i g p =
     (reconcile (faults_of e) (inst_dir i) (parseSteamCmdLog (log_text (run_tool e s chunk i p)) chunk)
        (timed_out (run_tool e s chunk i p)) (after_tool e s chunk i (run_tool e s chunk i p)) chunk)
        \<lparr>fs := cleanStagingFolder (faults_of e) (inst_dir i)
             (fs (reconcile (faults_of e) (inst_dir i)
                    (parseSteamCmdLog (log_text (run_tool e s chunk i p)) chunk)
                    (timed_out (run_tool e s chunk i p))
                    (after_tool e s chunk i (run_tool e s chunk i p)) chunk))\<rparr>"
  using assms by (simp add: workerInstance_def Let_def)

text \<open>The outcome a completing worker records for an identifier of its chunk is a function
  of the classified log, the hard timeout and the shared folder it leaves.\<close>

lemma worker_outcome:
  assumes "script_opens e s i" and "y \<in> set chunk"
  shows "skinResults (workerInstance e s chunk i g p) y =
     Some (snd (count_outcome s
       (reconciled (parseSteamCmdLog (log_text (run_tool e s chunk i p)) chunk)
          (timed_out (run_tool e s chunk i p)) y False
          (folderHasFiles (faults_of e) (fs (workerInstance e s chunk i g p)) (skin_dst y)))))"
proof -
  from assms(2) have "chunk \<noteq> []" by auto
  note w = worker_unfold [OF this assms(1), of g p]
  show ?thesis
    unfolding w
    by (simp add: reconcile_outcome [OF assms(2), where ?s0.0 = s]
        folderHasFiles_lookup [OF cleanStagingFolder_frame])
qed

lemma worker_records_error:
  assumes "script_opens e s i" and "y \<in> set chunk"
    and "perItem (parseSteamCmdLog (log_text (run_tool e s chunk i p)) chunk) y = Some Unknown
         \<or> perItem (parseSteamCmdLog (log_text (run_tool e s chunk i p)) chunk) y = None"
    and "\<not> timed_out (run_tool e s chunk i p)"
    and "\<not> folderHasFiles (faults_of e) (fs (workerInstance e s chunk i g p)) (skin_dst y)"
  shows "skinResults (workerInstance e s chunk i g p) y = Some Error"
  using assms(3-5) unfolding worker_outcome [OF assms(1,2)]
  by (auto simp: reconciled_def count_outcome_def)

lemma count_outcome_counters:
  "errorCount (fst (count_outcome s sr)) = errorCount s + (if snd (count_outcome s sr) = Error then 1 else 0)"
  "failedCount (fst (count_outcome s sr)) = failedCount s + (if snd (count_outcome s sr) = Success then 0 else 1)"
  by (cases sr; simp add: count_outcome_def)+

lemma reconcile_one_counters:
  "errorCount (reconcile_one f d parsed timedOut s x) =
     errorCount s + (if skinResults (reconcile_one f d parsed timedOut s x) x = Some Error then 1 else 0)"
  "failedCount (reconcile_one f d parsed timedOut s x) =
     failedCount s + (if skinResults (reconcile_one f d parsed timedOut s x) x = Some Success then 0 else 1)"
  by (simp_all add: reconcile_one_def Let_def case_prod_beta count_outcome_counters)

lemma filter_cong_set: "(\<And>x. x \<in> set xs \<Longrightarrow> P x = Q x) \<Longrightarrow> filter P xs = filter Q xs"
  by (induction xs) auto

lemma reconcile_counters:
  "distinct chunk \<Longrightarrow>
   errorCount (reconcile f d parsed timedOut s chunk) =
     errorCount s + int (length (filter (\<lambda>y. skinResults (reconcile f d parsed timedOut s chunk) y = Some Error) chunk))
   \<and> failedCount (reconcile f d parsed timedOut s chunk) =
     failedCount s + int (length (filter (\<lambda>y. skinResults (reconcile f d parsed timedOut s chunk) y \<noteq> Some Success) chunk))"
proof (induction chunk rule: rev_induct)
  case Nil
  then show ?case by (simp add: reconcile_def)
next
  case (snoc x xs)
  let ?s = "reconcile f d parsed timedOut s xs"
  let ?t = "reconcile_one f d parsed timedOut (reconcile f d parsed timedOut s xs) x"
  from snoc.prems have d: "distinct xs" and nx: "x \<notin> set xs" by simp_all
  have same: "skinResults ?t y = skinResults ?s y" if "y \<in> set xs" for y
  proof -
    from that nx have "y \<noteq> x" by auto
    then show ?thesis by (rule reconcile_one_other)
  qed
  have e: "filter (\<lambda>y. skinResults ?t y = Some Error) xs = filter (\<lambda>y. skinResults ?s y = Some Error) xs"
    by (rule filter_cong_set) (simp add: same)
  have fl: "filter (\<lambda>y. skinResults ?t y \<noteq> Some Success) xs = filter (\<lambda>y. skinResults ?s y \<noteq> Some Success) xs"
    by (rule filter_cong_set) (simp add: same)
  from snoc.IH [OF d] show ?case
    by (simp add: reconcile_snoc e fl reconcile_one_counters)
qed

text \<open>A completing worker raises the error counter by the number of identifiers of its
  chunk it stores as \<open>Error\<close>, and the failed counter by the number it stores with an
  outcome other than \<open>Success\<close>.\<close>

lemma worker_counters:
  assumes "script_opens e s i" and "distinct chunk"
  shows "errorCount (workerInstance e s chunk i g p) =
           errorCount s + int (length (filter (\<lambda>y. skinResults (workerInstance e s chunk i g p) y = Some Error) chunk))"
    and "failedCount (workerInstance e s chunk i g p) =
           failedCount s + int (length (filter (\<lambda>y. skinResults (workerInstance e s chunk i g p) y \<noteq> Some Success) chunk))"
proof -
  have "errorCount (workerInstance e s chunk i g p) =
           errorCount s + int (length (filter (\<lambda>y. skinResults (workerInstance e s chunk i g p) y = Some Error) chunk))
     \<and> failedCount (workerInstance e s chunk i g p) =
           failedCount s + int (length (filter (\<lambda>y. skinResults (workerInstance e s chunk i g p) y \<noteq> Some Success) chunk))"
  proof (cases "chunk = []")
    case True
    then show ?thesis by (simp add: workerInstance_def)
  next
    case False
    note w = worker_unfold [OF False assms(1), of g p]
    have a: "errorCount (after_tool e s chunk i r) = errorCount s"
      "failedCount (after_tool e s chunk i r) = failedCount s" for r
      by (simp_all add: after_tool_def)
    from reconcile_counters [OF assms(2), of "faults_of e" "inst_dir i"
        "parseSteamCmdLog (log_text (run_tool e s chunk i p)) chunk" "timed_out (run_tool e s chunk i p)"
        "after_tool e s chunk i (run_tool e s chunk i p)"]
    show ?thesis unfolding w by (simp add: a)
  qed
  then show "errorCount (workerInstance e s chunk i g p) =
           errorCount s + int (length (filter (\<lambda>y. skinResults (workerInstance e s chunk i g p) y = Some Error) chunk))"
    and "failedCount (workerInstance e s chunk i g p) =
           failedCount s + int (length (filter (\<lambda>y. skinResults (workerInstance e s chunk i g p) y \<noteq> Some Success) chunk))"
    by simp_all
qed

lemma worker_keeps_unknown:
  assumes "skinResults (workerInstance e s chunk i g p) y = Some Unknown"
  shows "skinResults s y = Some Unknown"
proof (cases "chunk \<noteq> [] \<and> script_opens e s i")
  case True
  then have w: "workerInstance e s chunk i g p = 
     (reconcile (faults_of e) (inst_dir i) (parseSteamCmdLog (log_text (run_tool e s chunk i p)) chunk)
        (timed_out (run_tool e s chunk i p)) (after_tool e s chunk i (run_tool e s chunk i p)) chunk)
        \<lparr>fs := cleanStagingFolder (faults_of e) (inst_dir i)
             (fs (reconcile (faults_of e) (inst_dir i)
                    (parseSteamCmdLog (log_text (run_tool e s chunk i p)) chunk)
                    (timed_out (run_tool e s chunk i p))
                    (after_tool e s chunk i (run_tool e s chunk i p)) chunk))\<rparr>"
    by (simp add: worker_unfold)
  from assms have "skinResults (reconcile (faults_of e) (inst_dir i) (parseSteamCmdLog (log_text (run_tool e s chunk i p)) chunk)
        (timed_out (run_tool e s chunk i p)) (after_tool e s chunk i (run_tool e s chunk i p)) chunk) y = Some Unknown"
    unfolding w by simp
  from reconcile_unknown_kept [OF this] show ?thesis by (simp add: after_tool_def)
next
  case False
  then have "skinResults (workerInstance e s chunk i g p) = skinResults s"
    by (auto simp: workerInstance_def)
  with assms show ?thesis by simp
qed

text \<open>
  Claim C5, as amended. Whenever the move reports success, the destination in the shared
  tree has files. If the destination had no files when the move was called, the source
  path under the instance directory no longer exists afterwards, so it holds no regular
  file. If the destination already had files, the move reports success at once and
  leaves the file system, the source included, as it was.
\<close>

theorem move_success:
  assumes "moveSkinToShared f (inst_dir i) y t = (True, t')"
  shows "folderHasFiles f t' (skin_dst y)
         \<and> (if folderHasFiles f t (skin_dst y) then t' = t
            else lookup t' (skin_src (inst_dir i) y) = None
                 \<and> regular_files_under t' (skin_src (inst_dir i) y) = 0)"
proof -
  have "t' = t" if "folderHasFiles f t (skin_dst y)"
    using assms that by (simp add: moveSkinToShared_def Let_def)
  moreover have "lookup t' (skin_src (inst_dir i) y) = None" if "\<not> folderHasFiles f t (skin_dst y)"
    by (rule moveSkinToShared_source_gone [OF assms that])
       (rule diverge_sym [OF skin_src_dst_diverge])
  ultimately show ?thesis
    using moveSkinToShared_true [OF assms] by (auto simp: regular_files_under_def)
qed

lemma move_instance_only: "moveSkinToShared no_faults (inst_dir 0) ''490217825'' tree_instance_only
     = (True, Dir [(''instances'', nest [''rust_workshop_t0'', ''steamapps'', ''workshop'', ''content'', ''252490''] (Dir [])),
                   (''rust_workshop'', nest [''steamapps'', ''workshop'', ''content'', ''252490'', ''490217825''] skin_dir)])"
  by code_simp

theorem move_success_witness:
  "fst (moveSkinToShared no_faults (inst_dir 0) ''490217825'' tree_instance_only)
   \<and> \<not> folderHasFiles no_faults tree_instance_only (skin_dst ''490217825'')
   \<and> folderHasFiles no_faults
        (snd (moveSkinToShared no_faults (inst_dir 0) ''490217825'' tree_instance_only))
        (skin_dst ''490217825'')
   \<and> regular_files_under
        (snd (moveSkinToShared no_faults (inst_dir 0) ''490217825'' tree_instance_only))
        (skin_src (inst_dir 0) ''490217825'') = 0"
proof -
  have n: "\<not> folderHasFiles no_faults tree_instance_only (skin_dst ''490217825'')"
    by code_simp
  from move_success [OF move_instance_only] n show ?thesis
    by (simp add: move_instance_only)
qed

text \<open>
  The claim as stated fails when the destination already has files: the move reports
  success and the source still holds its regular file.
\<close>

theorem move_already_present_counterexample:
  "moveSkinToShared no_faults (inst_dir 0) ''490217825'' tree_both = (True, tree_both)
   \<and> regular_files_under tree_both (skin_src (inst_dir 0) ''490217825'') = 1"
  by code_simp

text \<open>
  Claim C2 does not hold of the code: a worker whose script cannot be opened returns
  before the reconcile loop, and the identifier of its non-empty chunk has no outcome.
\<close>

theorem worker_script_failure_records_nothing:
  "skinResults (workerInstance env_no_script (initial_state start_tree) [''490217825''] 0 1 1)
     ''490217825'' = None"
  by code_simp

section \<open>Properties of the retry controller\<close>

lemma workers_pass_log:
  "pass_log (foldl (\<lambda>s' (i, chunk). workerInstance e s' chunk (int i) g p) s ics) = pass_log s"
  by (induction ics arbitrary: s) (simp_all add: case_prod_beta worker_pass_log)

lemma runPass_chunks_defined:
  "toDownload \<noteq> [] \<Longrightarrow> 1 \<le> instances \<Longrightarrow> runPass_chunks toDownload instances \<noteq> None"
  by (cases toDownload) (auto simp: runPass_chunks_def partition_def)

lemma runPass_pass_log:
  assumes "1 \<le> instances"
  shows "pass_log (runPass e s toDownload instances p g) =
           (if toDownload = [] then pass_log s
            else pass_log s @ [(p, instances, min instances (int (length toDownload)))])"
proof (cases "toDownload = []")
  case True
  then show ?thesis by (simp add: runPass_def)
next
  case False
  with runPass_chunks_defined [OF False assms] obtain chunks
    where "runPass_chunks toDownload instances = Some chunks" by auto
  with False show ?thesis
    by (simp add: runPass_def Let_def workers_pass_log)
qed

lemma reset_one_pass_log: "pass_log (reset_one s x) = pass_log s"
  by (auto simp: reset_one_def Let_def split: option.splits SkinResult.splits)

lemma resetCountersForRetry_pass_log: "pass_log (resetCountersForRetry s ids) = pass_log s"
  unfolding resetCountersForRetry_def
  by (induction ids arbitrary: s) (simp_all add: reset_one_pass_log)

lemma prepare_retry_pass_log: "pass_log (prepare_retry e s m failed) = pass_log s"
  by (simp add: prepare_retry_def Let_def resetCountersForRetry_pass_log)

lemma collectFailed_subset: "length (collectFailed s ids) \<le> length ids"
  by (simp add: collectFailed_def)

lemma retry_loop_pass_log:
  "\<exists>rest. pass_log (retry_loop e s tp m g rs) = pass_log s @ rest
     \<and> length rest \<le> length rs
     \<and> map fst rest = map (\<lambda>r. r + 1) (take (length rest) rs)
     \<and> (\<forall>x \<in> set rest. fst (snd x) = max 1 (m div 2))"
proof (induction rs arbitrary: s)
  case Nil
  show ?case by simp
next
  case (Cons r rs)
  let ?failed = "collectFailed s tp"
  show ?case
  proof (cases "?failed = []")
    case True
    then show ?thesis by (simp add: Let_def)
  next
    case False
    let ?s2 = "runPass e (prepare_retry e s m ?failed) ?failed (max 1 (m div 2)) (r + 1) g"
    have one: "pass_log ?s2 = pass_log s
        @ [(r + 1, max 1 (m div 2), min (max 1 (m div 2)) (int (length ?failed)))]"
      using False by (simp add: runPass_pass_log prepare_retry_pass_log)
    from Cons.IH [of ?s2] obtain rest where
      rest: "pass_log (retry_loop e ?s2 tp m g rs) = pass_log ?s2 @ rest"
      "length rest \<le> length rs"
      "map fst rest = map (\<lambda>r. r + 1) (take (length rest) rs)"
      "\<forall>x \<in> set rest. fst (snd x) = max 1 (m div 2)"
      by blast
    let ?rest = "(r + 1, max 1 (m div 2), min (max 1 (m div 2)) (int (length ?failed))) # rest"
    from False have "retry_loop e s tp m g (r # rs) = retry_loop e ?s2 tp m g rs"
      by (simp add: Let_def)
    with rest one have "pass_log (retry_loop e s tp m g (r # rs)) = pass_log s @ ?rest
       \<and> length ?rest \<le> length (r # rs)
       \<and> map fst ?rest = map (\<lambda>r. r + 1) (take (length ?rest) (r # rs))
       \<and> (\<forall>x \<in> set ?rest. fst (snd x) = max 1 (m div 2))"
      by simp
    then show ?thesis by blast
  qed
qed

lemma upto_MAX: "[1..MAX_RETRY_PASSES] = [1, 2, 3]"
  by (simp add: MAX_RETRY_PASSES_def upto.simps)

text \<open>
  Claim C4, as amended. In every run the first pass is dispatched with the number of
  instances the user asked for (at least 1), and every retry pass (passes 2 to 4) is
  dispatched with half of that number, at least 1: pass 2 runs with half the concurrency
  of pass 1, and the later passes keep the concurrency of pass 2.
\<close>

theorem retry_passes_use_half_of_first:
  assumes "pass_log s = []" and "toProcess \<noteq> []"
  shows "\<exists>rest. pass_log (main_passes e s toProcess typed) =
            (1, max 1 typed, min (max 1 typed) (int (length toProcess))) # rest
          \<and> length rest \<le> 3
          \<and> map fst rest = take (length rest) [2, 3, 4]
          \<and> (\<forall>x \<in> set rest. fst (snd x) = max 1 (max 1 typed div 2))"
proof -
  let ?m = "max 1 typed"
  let ?g = "int (length toProcess)"
  let ?s1 = "runPass e s toProcess ?m 1 ?g"
  have m: "(if typed < 1 then 1 else typed) = ?m" by simp
  from assms have one: "pass_log ?s1 = [(1, ?m, min ?m ?g)]"
    by (simp add: runPass_pass_log)
  from retry_loop_pass_log [of e ?s1 toProcess ?m ?g "[1, 2, 3]"] obtain rest where
    rest: "pass_log (retry_loop e ?s1 toProcess ?m ?g [1, 2, 3]) = pass_log ?s1 @ rest"
      "length rest \<le> 3"
      "map fst rest = map (\<lambda>r. r + 1) (take (length rest) [1, 2, 3])"
      "\<forall>x \<in> set rest. fst (snd x) = max 1 (?m div 2)"
    by auto
  from assms(2) have "main_passes e s toProcess typed = retry_loop e ?s1 toProcess ?m ?g [1, 2, 3]"
    unfolding main_passes_def Let_def m upto_MAX by simp
  moreover from rest(3) have "map fst rest = take (length rest) [2, 3, 4]"
    by (simp add: take_map [symmetric])
  ultimately show ?thesis using rest one by auto
qed

lemma idle_run_pass_log:
  "pass_log (main_passes env_idle (initial_state start_tree) four_ids 4)
     = [(1, 4, 4), (2, 2, 2), (3, 2, 2), (4, 2, 2)]"
  by code_simp

theorem retry_passes_use_half_of_first_witness:
  "pass_log (initial_state start_tree) = [] \<and> four_ids \<noteq> []
   \<and> (\<exists>rest. pass_log (main_passes env_idle (initial_state start_tree) four_ids 4) =
            (1, max 1 4, min (max 1 4) (int (length four_ids))) # rest
          \<and> length rest \<le> 3
          \<and> map fst rest = take (length rest) [2, 3, 4]
          \<and> (\<forall>x \<in> set rest. fst (snd x) = max 1 (max 1 4 div 2)))"
proof -
  have a: "pass_log (initial_state start_tree) = []" by (simp add: initial_state_def)
  have b: "four_ids \<noteq> []" by (simp add: four_ids_def)
  from a b retry_passes_use_half_of_first [OF a b, of env_idle 4] show ?thesis by blast
qed

text \<open>
  The claim as stated (each pass runs with half the concurrency of the pass before it)
  fails when four identifiers keep failing with four instances: the passes are
  requested with 4, 2, 2 and 2 instances.
\<close>

theorem retry_concurrency_counterexample:
  "pass_log (main_passes env_idle (initial_state start_tree) four_ids 4)
     = [(1, 4, 4), (2, 2, 2), (3, 2, 2), (4, 2, 2)]
   \<and> \<not> spec_halves_each_pass (pass_log (main_passes env_idle (initial_state start_tree) four_ids 4))"
  by (simp add: idle_run_pass_log)

text \<open>
  Claim C10 does not hold of the code. A worker that reaches its reconcile loop never
  stores \<open>Unknown\<close> (\<open>worker_keeps_unknown\<close>, \<open>worker_records_error\<close>), but the retry
  controller marks every failed identifier \<open>Unknown\<close> before a retry pass, and a retry
  worker whose script cannot be opened returns before its reconcile loop. With two
  identifiers, two instances and the script of instance 0 refused, identifier 490217826
  is processed in pass 1 by instance 1 and stored as \<open>Error\<close>; every retry pass hands it to
  instance 0, which returns at once; at the end it is reported with outcome \<open>Unknown\<close>,
  and the error and failed counters stand at -2.
\<close>

theorem retry_after_script_failure_reports_unknown:
  "skinResults (runPass env_t0_blocked (initial_state start_tree) two_ids 2 1 2) ''490217826''
     = Some Error
   \<and> skinResults (main_passes env_t0_blocked (initial_state start_tree) two_ids 2) ''490217826''
     = Some Unknown
   \<and> report_failed (main_passes env_t0_blocked (initial_state start_tree) two_ids 2) two_ids
     = [''490217826  [Unknown]'']
   \<and> errorCount (main_passes env_t0_blocked (initial_state start_tree) two_ids 2) = - 2
   \<and> failedCount (main_passes env_t0_blocked (initial_state start_tree) two_ids 2) = - 2
   \<and> pass_log (main_passes env_t0_blocked (initial_state start_tree) two_ids 2)
     = [(1, 2, 2), (2, 1, 1), (3, 1, 1), (4, 1, 1)]"
  by code_simp

section \<open>Properties of the manifest patcher\<close>

lemma set_insert_by_name: "set (insert_by_name e xs) = insert e (set xs)"
  by (induction xs) auto

lemma set_sort_by_name: "set (sort_by_name es) = set es"
  unfolding sort_by_name_def by (induction es) (simp_all add: set_insert_by_name)

text \<open>
  When every sub-directory of the content folder whose name is all digits and which has
  files is listed in both the installed and the details section of the manifest, the
  queue of entries to add is empty, the patcher leaves without writing (``ACF is already
  up to date'', or no sections found), and the manifest file is byte for byte what it
  was.
\<close>

theorem patcher_nothing_to_add:
  assumes "lookup t contentDir = Some (Dir cs)"
    and "\<not> unreadable (patch_faults pe) contentDir"
    and "\<forall>e \<in> set cs. is_directory_entry e \<and> isAllDigits (fst e)
            \<and> folderHasFiles (patch_faults pe) t (contentDir @ [fst e]) \<longrightarrow>
            fst e \<in> installedIds (parseAcf (read_lines content))
            \<and> fst e \<in> detailsIds (parseAcf (read_lines content))"
  shows "scan_content pe (parseAcf (read_lines content)) t contentDir = Some []
         \<and> (patch_acf pe t contentDir content = UpToDate
            \<or> patch_acf pe t contentDir content = NoSections)
         \<and> acf_after pe t contentDir content = content"
proof -
  let ?acf = "parseAcf (read_lines content)"
  have "filter (queued pe ?acf t contentDir) (sort_by_name (filter is_directory_entry cs)) = []"
    using assms(3) by (auto simp: filter_empty_conv set_sort_by_name queued_def)
  with assms(1,2) have scan: "scan_content pe ?acf t contentDir = Some []"
    by (simp add: scan_content_def)
  then have "patch_acf pe t contentDir content = UpToDate
            \<or> patch_acf pe t contentDir content = NoSections"
    by (simp add: patch_acf_def Let_def)
  then show ?thesis using scan by (auto simp: acf_after_def)
qed



lemma patched_manifest_ids:
  "parseAcf (read_lines (write_lines patched_manifest))
     = \<lparr>installedIds = {''111''}, detailsIds = {''111''},
        installedCloseLineIdx = 9, detailsCloseLineIdx = 16\<rparr>"
  by code_simp

lemma content_tree_lookup:
  "lookup (content_tree name) content_dir = Some (Dir [(name, skin_dir), (''notes.txt'', File 3)])"
  by (simp add: content_tree_def content_dir_def)

theorem patcher_nothing_to_add_witness:
  "patch_acf patch_env0 (content_tree ''111'') content_dir (write_lines patched_manifest) = UpToDate
   \<and> acf_after patch_env0 (content_tree ''111'') content_dir (write_lines patched_manifest)
       = write_lines patched_manifest"
proof -
  have r: "\<not> unreadable (patch_faults patch_env0) content_dir"
    by (simp add: patch_env0_def no_faults_def)
  have h: "\<forall>e \<in> set [(''111'', skin_dir), (''notes.txt'', File 3)].
            is_directory_entry e \<and> isAllDigits (fst e)
            \<and> folderHasFiles (patch_faults patch_env0) (content_tree ''111'') (content_dir @ [fst e]) \<longrightarrow>
            fst e \<in> installedIds (parseAcf (read_lines (write_lines patched_manifest)))
            \<and> fst e \<in> detailsIds (parseAcf (read_lines (write_lines patched_manifest)))"
    by (simp add: patched_manifest_ids is_directory_entry_def)
  have n: "patch_acf patch_env0 (content_tree ''111'') content_dir (write_lines patched_manifest)
             \<noteq> NoSections"
    by code_simp
  from patcher_nothing_to_add [OF content_tree_lookup r h] n show ?thesis by simp
qed

lemma marked_Nil: "marked X k [] = []"
  by (simp add: marked_def)

lemma marked_Cons: "marked X k (x # xs) = X k @ x # marked X (Suc k) xs"
proof -
  have "[k..<k + length (x # xs)] = k # [Suc k..<Suc k + length xs]"
    by (subst upt_rec) simp
  then show ?thesis by (simp add: marked_def)
qed

lemma marked_append: "marked X k (xs @ ys) = marked X k xs @ marked X (k + length xs) ys"
  by (induction xs arbitrary: k) (simp_all add: marked_Nil marked_Cons)

lemma marked_plain: "(\<And>i. k \<le> i \<Longrightarrow> i < k + length ls \<Longrightarrow> X i = []) \<Longrightarrow> marked X k ls = ls"
  by (induction ls arbitrary: k) (simp_all add: marked_Nil marked_Cons)

lemma marked_hit:
  assumes "X k = A" and "ls \<noteq> []" and "\<And>i. k < i \<Longrightarrow> i < k + length ls \<Longrightarrow> X i = []"
  shows "marked X k ls = A @ ls"
proof -
  from assms(2) obtain x xs where ls: "ls = x # xs" by (cases ls) auto
  have "marked X (Suc k) xs = xs"
    by (rule marked_plain) (use ls in \<open>auto intro: assms(3)\<close>)
  with assms(1) ls show ?thesis by (simp add: marked_Cons)
qed

lemma marked_append3:
  "length xs = a \<Longrightarrow> length ys = b - a \<Longrightarrow> a \<le> b \<Longrightarrow>
   marked X 0 (xs @ ys @ zs) = marked X 0 xs @ marked X a ys @ marked X b zs"
  by (simp add: marked_append)

lemma marked_two:
  assumes ab: "a < b" and bl: "b < length ls"
    and Xa: "X a = A" and Xb: "X b = B" and other: "\<And>i. i \<noteq> a \<Longrightarrow> i \<noteq> b \<Longrightarrow> X i = []"
  shows "marked X 0 ls = take a ls @ A @ take (b - a) (drop a ls) @ B @ drop b ls"
proof -
  let ?M = "take (b - a) (drop a ls)"
  from ab bl have lenM: "length ?M = b - a" by simp
  from ab bl have M: "?M \<noteq> []" by auto
  from bl have R: "drop b ls \<noteq> []" by simp
  from ab have "drop (b - a) (drop a ls) = drop b ls" by simp
  with append_take_drop_id [of "b - a" "drop a ls"] have split: "?M @ drop b ls = drop a ls"
    by (simp only:)
  have "take a ls @ drop a ls = ls" by (rule append_take_drop_id)
  then have ls: "take a ls @ ?M @ drop b ls = ls" by (simp only: split)
  from ab bl have la: "length (take a ls) = a" by simp
  have "marked X 0 ls = marked X 0 (take a ls @ ?M @ drop b ls)" by (simp only: ls)
  also have "\<dots> = marked X 0 (take a ls) @ marked X a ?M @ marked X b (drop b ls)"
    by (rule marked_append3 [OF la lenM]) (use ab in simp)
  also have "marked X 0 (take a ls) = take a ls"
    by (rule marked_plain) (use ab bl in \<open>auto intro: other\<close>)
  also have "marked X a ?M = A @ ?M"
    by (rule marked_hit [of X a A, OF Xa M]) (use ab lenM in \<open>auto intro: other\<close>)
  also have "marked X b (drop b ls) = B @ drop b ls"
    by (rule marked_hit [of X b B, OF Xb R]) (use ab in \<open>auto intro: other\<close>)
  finally show ?thesis by simp
qed

lemma spec_splice_marked:
  "spec_splice acf toAdd lines =
     marked (\<lambda>i. (if int i = installedCloseLineIdx acf
                    then splitLines (installedInsert acf toAdd) else [])
                  @ (if int i = detailsCloseLineIdx acf
                     then splitLines (detailsInsert acf toAdd) else [])) 0 lines"
  by (simp add: spec_splice_def marked_def)

lemma splitLines_Nil: "splitLines [] = []"
  by (simp add: splitLines_def getlines_def)

lemma insert_at_Nil: "insert_at idx [] lines = lines"
  by (simp add: insert_at_def)

lemma insert_twice:
  fixes ls :: "'a list"
  assumes "a < b" and "b \<le> length ls"
  shows "take a (take b ls @ D @ drop b ls) @ I @ drop a (take b ls @ D @ drop b ls)
         = take a ls @ I @ take (b - a) (drop a ls) @ D @ drop b ls"
  using assms by (simp add: drop_take min_def)

lemma splice_installed_first:
  assumes "0 \<le> installedCloseLineIdx acf"
    and "installedCloseLineIdx acf < detailsCloseLineIdx acf"
    and "detailsCloseLineIdx acf < int (length lines)"
  shows "splice acf toAdd lines = spec_splice acf toAdd lines"
proof -
  let ?a = "nat (installedCloseLineIdx acf)" and ?b = "nat (detailsCloseLineIdx acf)"
  let ?I = "splitLines (installedInsert acf toAdd)" and ?D = "splitLines (detailsInsert acf toAdd)"
  from assms have ab: "?a < ?b" and bl: "?b < length lines" by simp_all
  have code: "splice acf toAdd lines =
      insert_at (installedCloseLineIdx acf) ?I (insert_at (detailsCloseLineIdx acf) ?D lines)"
    using assms(2) by (auto simp: splice_def Let_def splitLines_Nil insert_at_Nil)
  also have "\<dots> = take ?a lines @ ?I @ take (?b - ?a) (drop ?a lines) @ ?D @ drop ?b lines"
    unfolding insert_at_def using ab bl by (intro insert_twice) simp_all
  also have "\<dots> = spec_splice acf toAdd lines"
    unfolding spec_splice_marked
    by (rule marked_two [symmetric, OF ab bl]) (use assms in auto)
  finally show ?thesis .
qed

text \<open>
  Claim C3 does not hold of the code. The manifest below has its details section before
  its installed section (closing lines 4 and 7). The installed block of item 333 is
  inserted before line 7, but the details block is inserted at index 4 + 6, in the middle
  of the installed block, and not before the closing line of the details section. Where
  the installed section comes first the splice is the one the claim describes
  (\<open>splice_installed_first\<close>).
\<close>

theorem patcher_details_first_misplaces_details:
  "parseAcf details_first_manifest
     = \<lparr>installedIds = {}, detailsIds = {}, installedCloseLineIdx = 7, detailsCloseLineIdx = 4\<rparr>
   \<and> patch_acf patch_env0 (content_tree ''333'') content_dir (write_lines details_first_manifest)
     = Patched (write_lines
         (take 7 details_first_manifest
          @ take 3 (splitLines (buildInstalledEntry skin333))
          @ splitLines (buildDetailsEntry skin333)
          @ drop 3 (splitLines (buildInstalledEntry skin333))
          @ drop 7 details_first_manifest))
   \<and> spec_splice (parseAcf details_first_manifest) [skin333] details_first_manifest
     = take 4 details_first_manifest
       @ splitLines (buildDetailsEntry skin333)
       @ take 3 (drop 4 details_first_manifest)
       @ splitLines (buildInstalledEntry skin333)
       @ drop 7 details_first_manifest
   \<and> splice (parseAcf details_first_manifest) [skin333] details_first_manifest
     \<noteq> spec_splice (parseAcf details_first_manifest) [skin333] details_first_manifest"
  by code_simp

text \<open>
  Claim C9 does not hold of the code: a second run with the same content on disk can
  rewrite the manifest. On the manifest whose details section stands first, the first
  run puts the details entry of item 333 inside its installed entry, so the manifest it
  leaves lists 333 in the installed section only; the second run queues 333 again,
  inserts a details entry before line 4 and writes a file that differs from its input.
  On the manifest whose installed section stands first the second run finds the manifest
  up to date and leaves the file as it is (\<open>patcher_second_run_installed_first\<close>).
\<close>

theorem patcher_second_run_rewrites_manifest:
  "parseAcf (read_lines (first_run details_first_manifest))
     = \<lparr>installedIds = {''333''}, detailsIds = {},
        installedCloseLineIdx = 21, detailsCloseLineIdx = 4\<rparr>
   \<and> patch_acf patch_env0 (content_tree ''333'') content_dir (first_run details_first_manifest)
     = Patched (write_lines
         (take 4 (read_lines (first_run details_first_manifest))
          @ splitLines (buildDetailsEntry skin333)
          @ drop 4 (read_lines (first_run details_first_manifest))))
   \<and> acf_after patch_env0 (content_tree ''333'') content_dir (first_run details_first_manifest)
     \<noteq> first_run details_first_manifest"
  by code_simp

lemma patcher_second_run_installed_first:
  "patch_acf patch_env0 (content_tree ''333'') content_dir (first_run installed_first_manifest)
     = UpToDate
   \<and> acf_after patch_env0 (content_tree ''333'') content_dir (first_run installed_first_manifest)
     = first_run installed_first_manifest
   \<and> first_run installed_first_manifest \<noteq> write_lines installed_first_manifest"
  by code_simp

end
